theory Spec2Isabelle
  imports Main
begin

section \<open>Texts, characters and the JavaScript string primitives\<close>

text \<open>
  The context processor works on JavaScript strings. A text is modelled as a
  \<^typ>\<open>string\<close>, one \<^typ>\<open>char\<close> per code unit; offsets and lengths count
  code units, as \<^verbatim>\<open>String.prototype.length\<close> does. A \<^typ>\<open>char\<close> has 256
  values, so the texts of the model are those whose code units lie below 256;
  the classes of characters below (white space, line terminators, capital
  letters) are the JavaScript ones cut to that range. Numbers that the
  processor receives or computes are integers (the tool schemas require
  \<^verbatim>\<open>z.number().int()\<close>); an option that may be absent is an
  \<^typ>\<open>int option\<close>.
\<close>

abbreviation NL :: char where
  "NL \<equiv> CHR 0x0A"

abbreviation CR :: char where
  "CR \<equiv> CHR 0x0D"

text \<open>Line terminators of the regular expression grammar (for \<^verbatim>\<open>.\<close>,
  \<^verbatim>\<open>^\<close> and \<^verbatim>\<open>$\<close>) among the code units a \<^typ>\<open>char\<close> has.\<close>

definition isLineTerminator :: "char \<Rightarrow> bool" where
  "isLineTerminator c = (c = NL \<or> c = CR)"

text \<open>White space as \<^verbatim>\<open>trim()\<close> and \<^verbatim>\<open>\s\<close> see it: TAB, LF, VT, FF, CR,
  SPACE and NBSP.\<close>

definition isWhiteSpace :: "char \<Rightarrow> bool" where
  "isWhiteSpace c =
     (c = CHR 0x09 \<or> c = NL \<or> c = CHR 0x0B \<or> c = CHR 0x0C \<or> c = CR \<or>
      c = CHR 0x20 \<or> c = CHR 0xA0)"

text \<open>\<^verbatim>\<open>s.trim()\<close>.\<close>

definition trim :: "string \<Rightarrow> string" where
  "trim s = rev (dropWhile isWhiteSpace (rev (dropWhile isWhiteSpace s)))"

text \<open>\<^verbatim>\<open>s.slice(a, b)\<close> on strings and arrays: a negative bound counts from the
  end, both bounds are clamped to the length, and an empty range gives the
  empty result.\<close>

definition sliceBound :: "nat \<Rightarrow> int \<Rightarrow> nat" where
  "sliceBound len k = (if k < 0 then nat (max (int len + k) 0) else min (nat k) len)"

definition slice :: "'a list \<Rightarrow> int \<Rightarrow> int \<Rightarrow> 'a list" where
  "slice xs a b =
     (let from = sliceBound (length xs) a; to = sliceBound (length xs) b
      in take (to - from) (drop from xs))"

text \<open>\<^verbatim>\<open>s.split('\n')\<close>: splitting on a separator string of one character
  always returns at least one piece.\<close>

fun splitOn :: "char \<Rightarrow> string \<Rightarrow> string list" where
  "splitOn sep [] = [[]]"
| "splitOn sep (c # cs) =
     (if c = sep then [] # splitOn sep cs
      else (case splitOn sep cs of
              [] \<Rightarrow> [[c]]
            | l # ls \<Rightarrow> (c # l) # ls))"

text \<open>\<^verbatim>\<open>parts.join('\n')\<close>.\<close>

fun joinWith :: "char \<Rightarrow> string list \<Rightarrow> string" where
  "joinWith sep [] = []"
| "joinWith sep [l] = l"
| "joinWith sep (l # m # ls) = l @ sep # joinWith sep (m # ls)"

text \<open>\<^verbatim>\<open>s.indexOf(t, position)\<close>: the position is clamped to
  \<open>0 .. length s\<close>; the result is the least offset from there on at which
  \<open>t\<close> occurs, or \<open>-1\<close>.\<close>

definition startsWith :: "string \<Rightarrow> string \<Rightarrow> bool" where
  "startsWith s t = (take (length t) s = t)"

fun findFirst :: "string \<Rightarrow> string \<Rightarrow> nat option" where
  "findFirst t [] = (if t = [] then Some 0 else None)"
| "findFirst t (c # cs) =
     (if startsWith (c # cs) t then Some 0 else map_option Suc (findFirst t cs))"

definition indexOf :: "string \<Rightarrow> string \<Rightarrow> int \<Rightarrow> int" where
  "indexOf s t position =
     (let p = min (nat (max position 0)) (length s)
      in case findFirst t (drop p s) of
           None \<Rightarrow> - 1
         | Some k \<Rightarrow> int (p + k))"

text \<open>\<^verbatim>\<open>s.toLowerCase()\<close> on the code units a \<^typ>\<open>char\<close> has: the letters
  A-Z and the accented capitals 0xC0-0xDE (0xD7, the multiplication sign, apart)
  move up by 0x20.\<close>

definition lowerChar :: "char \<Rightarrow> char" where
  "lowerChar c =
     (let n = (of_char c :: nat)
      in if (65 \<le> n \<and> n \<le> 90) \<or> (192 \<le> n \<and> n \<le> 222 \<and> n \<noteq> 215)
         then char_of (n + 32) else c)"

definition toLowerCase :: "string \<Rightarrow> string" where
  "toLowerCase s = map lowerChar s"

section \<open>Chunks and options\<close>

text \<open>The enum \<^verbatim>\<open>DecompositionStrategy\<close> and the interface \<^verbatim>\<open>Chunk\<close> of
  \<^verbatim>\<open>types.ts\<close>, as \<^verbatim>\<open>decompose\<close> and the chunk literals of the processor
  use them.\<close>

datatype DecompositionStrategy =
  FIXED_SIZE | BY_LINES | BY_PARAGRAPHS | BY_SECTIONS | BY_REGEX | BY_SENTENCES

datatype metadata =
  LineRange int int
| Preamble
| Section nat string

record chunk =
  index :: nat
  content :: string
  startOffset :: int
  endOffset :: int
  metadata :: "metadata option"

record options =
  chunkSize :: "int option"
  overlap :: "int option"
  linesPerChunk :: "int option"
  pattern :: "string option"

abbreviation DEFAULT_CHUNK_SIZE :: int where
  "DEFAULT_CHUNK_SIZE \<equiv> 10000"

abbreviation DEFAULT_OVERLAP :: int where
  "DEFAULT_OVERLAP \<equiv> 200"

abbreviation DEFAULT_LINES_PER_CHUNK :: int where
  "DEFAULT_LINES_PER_CHUNK \<equiv> 100"

text \<open>\<^verbatim>\<open>options.x || d\<close> on a number: an absent option and the number
  \<open>0\<close> are falsy and give the default.\<close>

definition orDefault :: "int option \<Rightarrow> int \<Rightarrow> int" where
  "orDefault v d = (case v of None \<Rightarrow> d | Some n \<Rightarrow> if n = 0 then d else n)"

section \<open>Fixed-size chunking\<close>

text \<open>The \<^verbatim>\<open>while\<close> loop of \<^verbatim>\<open>decomposeBySize\<close>, with its locals
  \<^verbatim>\<open>index\<close>, \<^verbatim>\<open>offset\<close> and \<^verbatim>\<open>chunks\<close> as arguments. The loop
  leaves through its \<^verbatim>\<open>break\<close> when the step is not positive.\<close>

function decomposeBySizeLoop ::
  "string \<Rightarrow> int \<Rightarrow> int \<Rightarrow> nat \<Rightarrow> int \<Rightarrow> chunk list \<Rightarrow> chunk list" where
  "decomposeBySizeLoop text csize ovl idx offset chunks =
     (if offset < int (length text) then
        (let end = min (offset + csize) (int (length text));
             chunks' = chunks @
               [\<lparr>index = idx, content = slice text offset end,
                 startOffset = offset, endOffset = end, metadata = None\<rparr>]
         in if csize - ovl \<le> 0 then chunks'
            else decomposeBySizeLoop text csize ovl (idx + 1) (offset + (csize - ovl)) chunks')
      else chunks)"
  by pat_completeness auto
termination
  by (relation "measure (\<lambda>(text, csize, ovl, idx, offset, chunks).
        nat (int (length text) - offset))") auto

declare decomposeBySizeLoop.simps [simp del]

definition decomposeBySize :: "string \<Rightarrow> int \<Rightarrow> int \<Rightarrow> chunk list" where
  "decomposeBySize text csize ovl = decomposeBySizeLoop text csize ovl 0 0 []"

section \<open>Chunking by lines\<close>

text \<open>The inner \<^verbatim>\<open>for\<close> loop adds, for each of the next \<^verbatim>\<open>advanceLines\<close>
  lines that exist, the line's length and one for its newline.\<close>

definition advanceOffset :: "string list \<Rightarrow> nat \<Rightarrow> nat \<Rightarrow> int \<Rightarrow> int" where
  "advanceOffset lines lineIndex advanceLines charOffset =
     fold (\<lambda>l acc. acc + int (length l) + 1) (take advanceLines (drop lineIndex lines)) charOffset"

function decomposeByLinesLoop ::
  "string list \<Rightarrow> int \<Rightarrow> int \<Rightarrow> nat \<Rightarrow> nat \<Rightarrow> int \<Rightarrow> chunk list \<Rightarrow> chunk list" where
  "decomposeByLinesLoop lines perChunk ovlLines idx lineIndex charOffset chunks =
     (if lineIndex < length lines then
        (let chunkLines = slice lines (int lineIndex) (int lineIndex + perChunk);
             chunkContent = joinWith NL chunkLines;
             end = charOffset + int (length chunkContent);
             chunks' = chunks @
               [\<lparr>index = idx, content = chunkContent,
                 startOffset = charOffset, endOffset = end,
                 metadata = Some (LineRange (int lineIndex)
                   (min (int lineIndex + perChunk) (int (length lines)) - 1))\<rparr>];
             advanceLines = nat (max 1 (perChunk - ovlLines))
         in decomposeByLinesLoop lines perChunk ovlLines (idx + 1)
              (lineIndex + advanceLines)
              (advanceOffset lines lineIndex advanceLines charOffset) chunks')
      else chunks)"
  by pat_completeness auto
termination
  by (relation "measure (\<lambda>(lines, perChunk, ovlLines, idx, lineIndex, charOffset, chunks).
        length lines - lineIndex)") auto

declare decomposeByLinesLoop.simps [simp del]

definition decomposeByLines :: "string \<Rightarrow> int \<Rightarrow> int \<Rightarrow> chunk list" where
  "decomposeByLines text perChunk ovlLines =
     decomposeByLinesLoop (splitOn NL text) perChunk ovlLines 0 0 0 []"

section \<open>Chunking by paragraphs\<close>

text \<open>\<^verbatim>\<open>content.split(/\n\n+/)\<close>: the pattern matches a run of two or more
  newlines, and matches it whole since \<^verbatim>\<open>+\<close> is greedy. The pieces are the
  texts between the runs; a run at the very start or end leaves an empty piece
  there, and a text without such a run is the only piece.\<close>

function splitParagraphs :: "string \<Rightarrow> string list" where
  "splitParagraphs [] = [[]]"
| "splitParagraphs (c # cs) =
     (if c = NL \<and> cs \<noteq> [] \<and> hd cs = NL then [] # splitParagraphs (dropWhile (\<lambda>d. d = NL) cs)
      else (case splitParagraphs cs of
              [] \<Rightarrow> [[c]]
            | l # ls \<Rightarrow> (c # l) # ls))"
  by pat_completeness auto
termination
  by (relation "measure length") (auto simp: less_Suc_eq_le length_dropWhile_le)

declare splitParagraphs.simps(2) [simp del]

text \<open>The body of \<^verbatim>\<open>forEach((para, index) => ...)\<close> shared by
  \<^verbatim>\<open>decomposeByParagraphs\<close> and \<^verbatim>\<open>decomposeByRegex\<close>: \<^verbatim>\<open>index\<close> is the
  position of the piece in the split result, \<^verbatim>\<open>offset\<close> and \<^verbatim>\<open>chunks\<close> are
  the variables the callback updates.\<close>

fun forEachPart :: "string \<Rightarrow> string list \<Rightarrow> nat \<Rightarrow> int \<Rightarrow> chunk list \<Rightarrow> chunk list" where
  "forEachPart text [] idx offset chunks = chunks"
| "forEachPart text (part # parts) idx offset chunks =
     (if trim part \<noteq> [] then
        (let start = indexOf text part offset
         in forEachPart text parts (idx + 1) (start + int (length part))
              (chunks @
                [\<lparr>index = idx, content = trim part,
                  startOffset = start, endOffset = start + int (length part),
                  metadata = None\<rparr>]))
      else forEachPart text parts (idx + 1) offset chunks)"

definition decomposeByParagraphs :: "string \<Rightarrow> chunk list" where
  "decomposeByParagraphs text = forEachPart text (splitParagraphs text) 0 0 []"

section \<open>Chunking by sections\<close>

text \<open>The pattern \<^verbatim>\<open>/^(#{1,6})\s+(.+)$/gm\<close>. With the \<^verbatim>\<open>m\<close> flag \<^verbatim>\<open>^\<close> holds
  at offset 0 and after a line terminator.\<close>

definition atLineStart :: "string \<Rightarrow> nat \<Rightarrow> bool" where
  "atLineStart text p = (p = 0 \<or> (p \<le> length text \<and> isLineTerminator (text ! (p - 1))))"

text \<open>After the markers, \<^verbatim>\<open>\s+\<close> first takes the whole run of white space and
  gives characters back one at a time until \<^verbatim>\<open>(.+)\<close> finds a character that
  is no line terminator: \<open>titleStart rest w\<close> is the greatest \<open>j\<close> with
  \<open>1 \<le> j \<le> w\<close> at which \<open>rest\<close> has such a character.\<close>

fun titleStart :: "string \<Rightarrow> nat \<Rightarrow> nat option" where
  "titleStart rest 0 = None"
| "titleStart rest (Suc j) =
     (if Suc j < length rest \<and> \<not> isLineTerminator (rest ! Suc j) then Some (Suc j)
      else titleStart rest j)"

text \<open>A match of the pattern that starts at offset \<open>p\<close>: its heading level
  (the length of group 1), its title (group 2) and the offset where it ends.
  \<^verbatim>\<open>#{1,6}\<close> must take every marker of the run, since white space has to
  follow; \<^verbatim>\<open>(.+)\<close> runs to the end of the line, where \<^verbatim>\<open>$\<close> holds.\<close>

definition sectionMatchAt :: "string \<Rightarrow> nat \<Rightarrow> (nat \<times> string \<times> nat) option" where
  "sectionMatchAt text p =
     (let hashes = length (takeWhile (\<lambda>c. c = CHR ''#'') (drop p text));
          rest = drop (p + hashes) text;
          w = length (takeWhile isWhiteSpace rest)
      in if \<not> atLineStart text p \<or> hashes < 1 \<or> 6 < hashes then None
         else (case titleStart rest w of
                 None \<Rightarrow> None
               | Some j \<Rightarrow>
                   (let title = takeWhile (\<lambda>c. \<not> isLineTerminator c) (drop j rest)
                    in Some (hashes, title, p + hashes + j + length title))))"

lemma sectionMatchAt_end: "sectionMatchAt text p = Some (lvl, title, e) \<Longrightarrow> p < e"
  by (auto simp: sectionMatchAt_def Let_def split: if_splits option.splits)

text \<open>The loop \<^verbatim>\<open>while ((match = sectionPattern.exec(content)) !== null)\<close>:
  \<^verbatim>\<open>exec\<close> tries the offsets from \<^verbatim>\<open>lastIndex\<close> on and, on a match, leaves
  \<^verbatim>\<open>lastIndex\<close> at its end. Each entry is \<^verbatim>\<open>(start, level, title)\<close>.\<close>

function sectionMatches :: "string \<Rightarrow> nat \<Rightarrow> (nat \<times> nat \<times> string) list" where
  "sectionMatches text lastIndex =
     (if length text \<le> lastIndex then []
      else (case sectionMatchAt text lastIndex of
              None \<Rightarrow> sectionMatches text (lastIndex + 1)
            | Some (lvl, title, e) \<Rightarrow> (lastIndex, lvl, title) # sectionMatches text e))"
  by pat_completeness auto
termination
  by (relation "measure (\<lambda>(text, lastIndex). length text - lastIndex)")
     (auto dest: sectionMatchAt_end)

declare sectionMatches.simps [simp del]

text \<open>The \<^verbatim>\<open>for\<close> loop over \<^verbatim>\<open>matches\<close>: a section runs to the start of the
  next match, the last one to the end of the text.\<close>

fun sectionChunks :: "string \<Rightarrow> (nat \<times> nat \<times> string) list \<Rightarrow> nat \<Rightarrow> chunk list" where
  "sectionChunks text [] idx = []"
| "sectionChunks text ((start, lvl, title) # ms) idx =
     (let end = (case ms of [] \<Rightarrow> int (length text) | (next, _) # _ \<Rightarrow> int next)
      in \<lparr>index = idx, content = trim (slice text (int start) end),
           startOffset = int start, endOffset = end,
           metadata = Some (Section lvl title)\<rparr> # sectionChunks text ms (idx + 1))"

definition decomposeBySections :: "string \<Rightarrow> chunk list" where
  "decomposeBySections text =
     (case sectionMatches text 0 of
        [] \<Rightarrow> [\<lparr>index = 0, content = text, startOffset = 0,
                 endOffset = int (length text), metadata = None\<rparr>]
      | (start0, lvl0, title0) # ms \<Rightarrow>
          (let preContent = trim (slice text 0 (int start0));
               sections = (if 0 < start0 \<and> preContent \<noteq> [] then
                   [\<lparr>index = 0, content = preContent, startOffset = 0,
                     endOffset = int start0, metadata = Some Preamble\<rparr>]
                 else [])
           in sections @ sectionChunks text ((start0, lvl0, title0) # ms) (length sections)))"

section \<open>Chunking by sentences\<close>

definition isTerminator :: "char \<Rightarrow> bool" where
  "isTerminator c = (c = CHR ''.'' \<or> c = CHR ''!'' \<or> c = CHR ''?'')"

text \<open>A match of \<^verbatim>\<open>/[^.!?]+[.!?]+\s*/g\<close> that starts at offset \<open>p\<close>, as the
  offset where it ends: a run of characters that are no terminators, which a
  terminator must follow, then every terminator and every white space that
  comes next.\<close>

definition sentenceMatchAt :: "string \<Rightarrow> nat \<Rightarrow> nat option" where
  "sentenceMatchAt text p =
     (let body = length (takeWhile (\<lambda>c. \<not> isTerminator c) (drop p text));
          marks = length (takeWhile isTerminator (drop (p + body) text));
          spaces = length (takeWhile isWhiteSpace (drop (p + body + marks) text))
      in if body < 1 \<or> marks < 1 then None else Some (p + body + marks + spaces))"

lemma sentenceMatchAt_end: "sentenceMatchAt text p = Some e \<Longrightarrow> p < e"
  by (auto simp: sentenceMatchAt_def Let_def split: if_splits)

text \<open>The loop \<^verbatim>\<open>while ((match = sentencePattern.exec(content)) !== null)\<close>,
  each entry the start and the end of a match.\<close>

function sentenceMatches :: "string \<Rightarrow> nat \<Rightarrow> (nat \<times> nat) list" where
  "sentenceMatches text lastIndex =
     (if length text \<le> lastIndex then []
      else (case sentenceMatchAt text lastIndex of
              None \<Rightarrow> sentenceMatches text (lastIndex + 1)
            | Some e \<Rightarrow> (lastIndex, e) # sentenceMatches text e))"
  by pat_completeness auto
termination
  by (relation "measure (\<lambda>(text, lastIndex). length text - lastIndex)")
     (auto dest: sentenceMatchAt_end)

declare sentenceMatches.simps [simp del]

fun sentenceChunks :: "string \<Rightarrow> (nat \<times> nat) list \<Rightarrow> nat \<Rightarrow> chunk list" where
  "sentenceChunks text [] idx = []"
| "sentenceChunks text ((start, e) # ms) idx =
     \<lparr>index = idx, content = trim (slice text (int start) (int e)),
      startOffset = int start, endOffset = int e, metadata = None\<rparr>
     # sentenceChunks text ms (idx + 1)"

definition decomposeBySentences :: "string \<Rightarrow> chunk list" where
  "decomposeBySentences text =
     (let sentences = sentenceChunks text (sentenceMatches text 0) 0
      in if sentences = [] \<and> trim text \<noteq> [] then
           [\<lparr>index = 0, content = trim text, startOffset = 0,
             endOffset = int (length text), metadata = None\<rparr>]
         else sentences)"

section \<open>Chunking by a caller-supplied pattern, and the regular expression engine\<close>

text \<open>\<^verbatim>\<open>RegExp\<close> belongs to the JavaScript runtime, not to this repository, so
  the engine is a parameter of the model. \<^verbatim>\<open>new RegExp(pattern, flags)\<close>
  throws a \<^verbatim>\<open>SyntaxError\<close> on a pattern or flags it cannot compile;
  \<^verbatim>\<open>content.split(regex)\<close> returns the pieces and, for a pattern with
  groups, what each group captured (\<^verbatim>\<open>undefined\<close> for a group that took no
  part); \<^verbatim>\<open>regex.exec(content)\<close> reads \<^verbatim>\<open>lastIndex\<close> and returns the next
  match (its offset, its text and its groups) together with the new
  \<^verbatim>\<open>lastIndex\<close>.\<close>

datatype error = SyntaxError string | TypeError string

definition describe :: "error \<Rightarrow> string" where
  "describe e = (case e of
     SyntaxError msg \<Rightarrow> ''SyntaxError: '' @ msg
   | TypeError msg \<Rightarrow> ''TypeError: '' @ msg)"

record 'r regexEngine =
  newRegExp :: "string \<Rightarrow> string \<Rightarrow> error + 'r"
  regexSplit :: "'r \<Rightarrow> string \<Rightarrow> string option list"
  regexExec :: "'r \<Rightarrow> string \<Rightarrow> nat \<Rightarrow> (nat \<times> string \<times> string option list) option \<times> nat"

abbreviation paragraphPattern :: string where
  "paragraphPattern \<equiv> [NL, NL, CHR ''+'']"

text \<open>\<^verbatim>\<open>decomposeByRegex\<close>. The pattern \<^verbatim>\<open>'\n\n+'\<close>, which \<^verbatim>\<open>decompose\<close>
  supplies when the caller gives none, is the pattern of
  \<^verbatim>\<open>decomposeByParagraphs\<close> and is split by \<open>splitParagraphs\<close>; any other
  pattern is compiled and split by the engine. \<^verbatim>\<open>part.trim()\<close> on an
  \<^verbatim>\<open>undefined\<close> piece throws a \<^verbatim>\<open>TypeError\<close>, which ends the call.\<close>

definition decomposeByRegex :: "'r regexEngine \<Rightarrow> string \<Rightarrow> string \<Rightarrow> error + chunk list" where
  "decomposeByRegex eng text pat =
     (if pat = paragraphPattern then Inr (forEachPart text (splitParagraphs text) 0 0 [])
      else (case newRegExp eng pat ''g'' of
              Inl e \<Rightarrow> Inl e
            | Inr regex \<Rightarrow>
                (let parts = regexSplit eng regex text
                 in if None \<in> set parts
                    then Inl (TypeError ''Cannot read properties of undefined'')
                    else Inr (forEachPart text (map the parts) 0 0 []))))"

section \<open>The dispatch on the strategy\<close>

text \<open>\<^verbatim>\<open>options.pattern || '\n\n+'\<close>: an absent and an empty pattern are
  falsy.\<close>

definition patternOrDefault :: "string option \<Rightarrow> string" where
  "patternOrDefault v = (case v of None \<Rightarrow> paragraphPattern
     | Some pat \<Rightarrow> if pat = [] then paragraphPattern else pat)"

text \<open>\<^verbatim>\<open>decompose\<close>. The \<^verbatim>\<open>default\<close> branch of the \<^verbatim>\<open>switch\<close> is not
  reached by a value of the enum. A call either returns its chunks
  (\<open>Inr\<close>) or throws (\<open>Inl\<close>).\<close>

definition decompose ::
  "'r regexEngine \<Rightarrow> string \<Rightarrow> DecompositionStrategy \<Rightarrow> options \<Rightarrow> error + chunk list" where
  "decompose eng text strategy opts =
     (case strategy of
        FIXED_SIZE \<Rightarrow>
          Inr (decomposeBySize text
                 (orDefault (chunkSize opts) DEFAULT_CHUNK_SIZE)
                 (orDefault (overlap opts) DEFAULT_OVERLAP))
      | BY_LINES \<Rightarrow>
          Inr (decomposeByLines text
                 (orDefault (linesPerChunk opts) DEFAULT_LINES_PER_CHUNK)
                 (orDefault (overlap opts) 10))
      | BY_PARAGRAPHS \<Rightarrow> Inr (decomposeByParagraphs text)
      | BY_SECTIONS \<Rightarrow> Inr (decomposeBySections text)
      | BY_REGEX \<Rightarrow> decomposeByRegex eng text (patternOrDefault (pattern opts))
      | BY_SENTENCES \<Rightarrow> Inr (decomposeBySentences text))"

section \<open>Searching\<close>

record searchMatch =
  matched :: string
  matchIndex :: nat
  lineNumber :: nat
  matchContext :: string
  groups :: "string option list"

record searchOptions =
  flags :: "string option"
  contextChars :: "int option"
  maxResults :: "int option"
  includeLineNumbers :: "bool option"

abbreviation MAX_SEARCH_RESULTS :: int where
  "MAX_SEARCH_RESULTS \<equiv> 500"

text \<open>The \<^verbatim>\<open>while\<close> loop of \<^verbatim>\<open>search\<close>. Every round adds one result, so the
  loop ends when \<^verbatim>\<open>exec\<close> finds nothing more or \<^verbatim>\<open>maxResults\<close> results are
  there.\<close>

function searchLoop ::
  "'r regexEngine \<Rightarrow> 'r \<Rightarrow> string \<Rightarrow> int \<Rightarrow> int \<Rightarrow> bool \<Rightarrow> nat \<Rightarrow> searchMatch list
     \<Rightarrow> searchMatch list" where
  "searchLoop eng regex text ctxChars maxRes withLines lastIndex results =
     (case regexExec eng regex text lastIndex of
        (None, _) \<Rightarrow> results
      | (Some (at, m, gs), lastIndex') \<Rightarrow>
          if int (length results) < maxRes then
            (let start = max 0 (int at - ctxChars);
                 end = min (int (length text)) (int at + int (length m) + ctxChars);
                 line = (if withLines then length (splitOn NL (slice text 0 (int at))) else 0)
             in searchLoop eng regex text ctxChars maxRes withLines
                  (if length m = 0 then lastIndex' + 1 else lastIndex')
                  (results @
                    [\<lparr>matched = m, matchIndex = at, lineNumber = line,
                      matchContext = slice text start end, groups = gs\<rparr>]))
          else results)"
  by pat_completeness auto
termination
  by (relation "measure (\<lambda>(eng, regex, text, ctxChars, maxRes, withLines, lastIndex, results).
        nat (maxRes - int (length results)))") auto

declare searchLoop.simps [simp del]

text \<open>The \<^verbatim>\<open>try\<close> block of \<^verbatim>\<open>search\<close>, and \<^verbatim>\<open>search\<close> itself, whose
  \<^verbatim>\<open>catch\<close> clause ("Invalid regex - return empty results") turns an
  exception into the results collected so far, which are none when the
  pattern does not compile.\<close>

definition searchTry ::
  "'r regexEngine \<Rightarrow> string \<Rightarrow> string \<Rightarrow> searchOptions \<Rightarrow> error + searchMatch list" where
  "searchTry eng text pat opts =
     (case newRegExp eng pat (case flags opts of None \<Rightarrow> ''gi'' | Some f \<Rightarrow> f) of
        Inl e \<Rightarrow> Inl e
      | Inr regex \<Rightarrow>
          Inr (searchLoop eng regex text
                 (case contextChars opts of None \<Rightarrow> 100 | Some n \<Rightarrow> n)
                 (case maxResults opts of None \<Rightarrow> MAX_SEARCH_RESULTS | Some n \<Rightarrow> n)
                 (case includeLineNumbers opts of None \<Rightarrow> True | Some b \<Rightarrow> b)
                 0 []))"

definition search ::
  "'r regexEngine \<Rightarrow> string \<Rightarrow> string \<Rightarrow> searchOptions \<Rightarrow> error + searchMatch list" where
  "search eng text pat opts =
     (case searchTry eng text pat opts of
        Inl e \<Rightarrow> Inr []
      | Inr results \<Rightarrow> Inr results)"

text \<open>\<^verbatim>\<open>findAll\<close>. Its loop stops when \<^verbatim>\<open>indexOf\<close> answers \<open>-1\<close>; nothing
  else bounds it, so the loop is a partial function and \<open>None\<close> stands for a
  call that does not return.\<close>

partial_function (option) findAllLoop ::
  "string \<Rightarrow> string \<Rightarrow> int \<Rightarrow> int list \<Rightarrow> int list option" where
  "findAllLoop searchContent searchTerm idx indices =
     (let found = indexOf searchContent searchTerm idx
      in if found \<noteq> - 1
         then findAllLoop searchContent searchTerm (found + int (length searchTerm))
                (indices @ [found])
         else Some indices)"

definition findAll :: "string \<Rightarrow> string \<Rightarrow> bool \<Rightarrow> int list option" where
  "findAll text substring caseSensitive =
     findAllLoop (if caseSensitive then text else toLowerCase text)
       (if caseSensitive then substring else toLowerCase substring) 0 []"

section \<open>The tool handlers\<close>

text \<open>The session manager is not part of the sources at hand; the handlers
  use its two lookups, which the model takes as a parameter. A session holds
  its contexts by id, each reduced here to its \<^verbatim>\<open>content\<close>, the only field the
  handlers below read.\<close>

record session =
  contexts :: "string \<rightharpoonup> string"

record sessionManager =
  getSession :: "string \<Rightarrow> session option"
  getDefaultSession :: session

text \<open>\<^verbatim>\<open>params.session_id ? getSession(params.session_id) : getDefaultSession()\<close>
  followed by \<^verbatim>\<open>session?.contexts.get(params.context_id)\<close>.\<close>

definition lookupContext :: "sessionManager \<Rightarrow> string option \<Rightarrow> string \<Rightarrow> string option" where
  "lookupContext mgr sid cid =
     (let sess = (case sid of
                    None \<Rightarrow> Some (getDefaultSession mgr)
                  | Some s \<Rightarrow> if s = [] then Some (getDefaultSession mgr) else getSession mgr s)
      in case sess of None \<Rightarrow> None | Some se \<Rightarrow> contexts se cid)"

text \<open>What a handler answers: a text only (the error messages), a structured
  output, or an exception that leaves the handler.\<close>

datatype 'a toolResult = ToolText string | ToolOutput 'a | ToolThrows error

record getChunksInput =
  gc_context_id :: string
  gc_session_id :: "string option"
  gc_chunk_indices :: "int list"
  gc_strategy :: DecompositionStrategy
  gc_chunk_size :: int
  gc_overlap :: int

record chunkView =
  view_index :: int
  view_content :: string
  start_offset :: int
  end_offset :: int

record getChunksOutput =
  requested :: nat
  returned :: nat
  chunks :: "chunkView list"

definition notFound :: "string \<Rightarrow> string" where
  "notFound cid = ''Error: Context \"'' @ cid @ ''\" not found''"

text \<open>The handler of \<^verbatim>\<open>rlm_get_chunks\<close>.\<close>

definition rlm_get_chunks ::
  "sessionManager \<Rightarrow> 'r regexEngine \<Rightarrow> getChunksInput \<Rightarrow> getChunksOutput toolResult" where
  "rlm_get_chunks mgr eng params =
     (case lookupContext mgr (gc_session_id params) (gc_context_id params) of
        None \<Rightarrow> ToolText (notFound (gc_context_id params))
      | Some text \<Rightarrow>
          (case decompose eng text (gc_strategy params)
                  \<lparr>chunkSize = Some (gc_chunk_size params), overlap = Some (gc_overlap params),
                   linesPerChunk = None, pattern = None\<rparr> of
             Inl e \<Rightarrow> ToolThrows e
           | Inr allChunks \<Rightarrow>
               (let picked = map (\<lambda>i. \<lparr>view_index = i,
                                        view_content = content (allChunks ! nat i),
                                        start_offset = startOffset (allChunks ! nat i),
                                        end_offset = endOffset (allChunks ! nat i)\<rparr>)
                               (filter (\<lambda>i. 0 \<le> i \<and> i < int (length allChunks))
                                  (gc_chunk_indices params))
                in ToolOutput \<lparr>requested = length (gc_chunk_indices params),
                               returned = length picked, chunks = picked\<rparr>)))"

record searchContextInput =
  sc_context_id :: string
  sc_session_id :: "string option"
  sc_pattern :: string
  sc_flags :: string
  sc_context_chars :: int
  sc_max_results :: int
  sc_include_line_numbers :: bool

record searchContextOutput =
  out_pattern :: string
  total_matches :: nat
  matches :: "searchMatch list"

text \<open>The handler of \<^verbatim>\<open>rlm_search_context\<close>, with its own \<^verbatim>\<open>try\<close> around
  the call of \<^verbatim>\<open>search\<close>.\<close>

definition rlm_search_context ::
  "sessionManager \<Rightarrow> 'r regexEngine \<Rightarrow> searchContextInput \<Rightarrow> searchContextOutput toolResult" where
  "rlm_search_context mgr eng params =
     (case lookupContext mgr (sc_session_id params) (sc_context_id params) of
        None \<Rightarrow> ToolText (notFound (sc_context_id params))
      | Some text \<Rightarrow>
          (case search eng text (sc_pattern params)
                  \<lparr>flags = Some (sc_flags params),
                   contextChars = Some (sc_context_chars params),
                   maxResults = Some (sc_max_results params),
                   includeLineNumbers = Some (sc_include_line_numbers params)\<rparr> of
             Inl e \<Rightarrow> ToolText (''Error: Invalid regex pattern - '' @ describe e)
           | Inr ms \<Rightarrow>
               ToolOutput \<lparr>out_pattern = sc_pattern params,
                           total_matches = length ms, matches = ms\<rparr>))"

section \<open>Notions of the specification\<close>

text \<open>A header at offset \<open>p\<close> of a text: \<open>p\<close> starts a line; there stand one
  to six markers \<open>#\<close>, then white space, then a title of at least one character
  that is no line terminator. The white space is any run that \<^verbatim>\<open>\s+\<close> takes:
  spaces, tabs and line breaks, so that the title may stand on a later line than
  the markers.\<close>

definition headerAt :: "string \<Rightarrow> nat \<Rightarrow> bool" where
  "headerAt text p =
     (atLineStart text p \<and>
      (\<exists>h ws title rest.
         1 \<le> h \<and> h \<le> 6 \<and>
         ws \<noteq> [] \<and> list_all isWhiteSpace ws \<and>
         title \<noteq> [] \<and> list_all (\<lambda>c. \<not> isLineTerminator c) title \<and>
         drop p text = replicate h (CHR ''#'') @ ws @ title @ rest))"

text \<open>A header line in the narrow sense: a line that begins with one to six
  markers, followed by a space and a title on the same line.\<close>

definition headerLine :: "string \<Rightarrow> bool" where
  "headerLine l =
     (let h = length (takeWhile (\<lambda>c. c = CHR ''#'') l)
      in 1 \<le> h \<and> h \<le> 6 \<and>
         (case drop h l of
            [] \<Rightarrow> False
          | c # title \<Rightarrow> c = CHR '' '' \<and> title \<noteq> [] \<and> \<not> isLineTerminator (hd title)))"

definition hasHeaderLine :: "string \<Rightarrow> bool" where
  "hasHeaderLine text = list_ex headerLine (splitOn NL text)"

text \<open>The offsets of a chunk lie within the text it was cut from.\<close>

definition withinText :: "string \<Rightarrow> chunk \<Rightarrow> bool" where
  "withinText text c =
     (0 \<le> startOffset c \<and> startOffset c \<le> endOffset c \<and> endOffset c \<le> int (length text))"

text \<open>The pieces of a split lie in the text one after the other, from offset
  \<open>off\<close> on, without overlap.\<close>

fun occursInOrder :: "string \<Rightarrow> nat \<Rightarrow> string list \<Rightarrow> bool" where
  "occursInOrder text off [] = True"
| "occursInOrder text off (part # parts) =
     (\<exists>k\<ge>off. k + length part \<le> length text \<and> take (length part) (drop k text) = part
        \<and> occursInOrder text (k + length part) parts)"

text \<open>The length of some lines, each counted with its newline.\<close>

definition weight :: "string list \<Rightarrow> int" where
  "weight ls = sum_list (map (\<lambda>l. int (length l) + 1) ls)"

section \<open>Collaborators for the examples\<close>

text \<open>An engine that compiles no pattern (every \<^verbatim>\<open>new RegExp\<close> throws), an
  engine that compiles the one pattern \<open>,\<close> and splits at commas, a session
  manager whose default session holds the context \<open>main\<close> with the content
  \<open>abcdef\<close>, and two tool requests on that context.\<close>

definition rejectingEngine :: "unit regexEngine" where
  "rejectingEngine =
     \<lparr>newRegExp = (\<lambda>pat fl. Inl (SyntaxError ''Invalid regular expression'')),
      regexSplit = (\<lambda>regex s. []),
      regexExec = (\<lambda>regex s lastIndex. (None, lastIndex))\<rparr>"

definition commaEngine :: "unit regexEngine" where
  "commaEngine =
     \<lparr>newRegExp = (\<lambda>pat fl. if pat = '','' then Inr ()
                                else Inl (SyntaxError ''Invalid regular expression'')),
      regexSplit = (\<lambda>regex s. map Some (splitOn (CHR '','') s)),
      regexExec = (\<lambda>regex s lastIndex.
         case findFirst '','' (drop lastIndex s) of
           None \<Rightarrow> (None, 0)
         | Some k \<Rightarrow> (Some (lastIndex + k, '','', []), lastIndex + k + 1))\<rparr>"

definition exampleManager :: sessionManager where
  "exampleManager =
     \<lparr>getSession = (\<lambda>sid. None),
      getDefaultSession = \<lparr>contexts = [''main'' \<mapsto> ''abcdef'']\<rparr>\<rparr>"

definition exampleGetChunks :: getChunksInput where
  "exampleGetChunks =
     \<lparr>gc_context_id = ''main'', gc_session_id = None, gc_chunk_indices = [0, 7, 1],
      gc_strategy = FIXED_SIZE, gc_chunk_size = 2, gc_overlap = 1\<rparr>"

definition exampleSearch :: searchContextInput where
  "exampleSearch =
     \<lparr>sc_context_id = ''main'', sc_session_id = None, sc_pattern = ''('',
      sc_flags = ''gi'', sc_context_chars = 100, sc_max_results = 50,
      sc_include_line_numbers = True\<rparr>"

section \<open>Properties\<close>

declare findAllLoop.simps [code]

subsection \<open>Fixed-size chunking and the overlap option\<close>

lemma slice_nonneg:
  "0 \<le> a \<Longrightarrow> 0 \<le> b \<Longrightarrow> slice xs a b = take (nat b - nat a) (drop (nat a) xs)"
  by (auto simp: slice_def sliceBound_def Let_def min_def)

text \<open>With an overlap of zero the loop of \<^verbatim>\<open>decomposeBySize\<close> cuts the text
  into consecutive pieces: what it adds to \<^verbatim>\<open>chunks\<close> is the rest of the
  text from \<^verbatim>\<open>offset\<close> on.\<close>

lemma decomposeBySizeLoop_concat:
  "0 < csize \<Longrightarrow> 0 \<le> offset \<Longrightarrow>
   concat (map content (decomposeBySizeLoop s csize 0 idx offset acc))
     = concat (map content acc) @ drop (nat offset) s"
proof (induction s csize "0::int" idx offset acc rule: decomposeBySizeLoop.induct)
  case (1 s csize idx offset acc)
  show ?case
  proof (cases "offset < int (length s)")
    case False
    then show ?thesis using 1 by (subst decomposeBySizeLoop.simps) simp
  next
    case True
    let ?e = "min (offset + csize) (int (length s))"
    have sl: "slice s offset ?e = take (nat ?e - nat offset) (drop (nat offset) s)"
      using 1(2,3) True by (intro slice_nonneg) auto
    have "take (nat ?e - nat offset) (drop (nat offset) s) @ drop (nat (offset + csize)) s
          = drop (nat offset) s"
    proof (cases "offset + csize \<le> int (length s)")
      case True
      then have "nat ?e - nat offset = nat csize"
        using 1(2,3) by (simp add: min_def nat_diff_distrib)
      moreover have "nat (offset + csize) = nat csize + nat offset"
        using 1(2,3) by (simp add: nat_add_distrib)
      ultimately show ?thesis
        by (metis append_take_drop_id drop_drop)
    next
      case False
      then have "nat ?e - nat offset = length s - nat offset"
        using 1(2,3) by (simp add: min_def)
      moreover have "length s \<le> nat (offset + csize)"
        using False by linarith
      ultimately show ?thesis by simp
    qed
    then show ?thesis
      using 1 True sl by (subst decomposeBySizeLoop.simps) (simp add: Let_def)
  qed
qed

text \<open>The routine \<^verbatim>\<open>decomposeBySize\<close> itself, called with an overlap of zero and
  a chunk size of at least one, returns chunks whose contents concatenate to
  the text.\<close>

lemma decomposeBySize_overlap_zero_exact:
  "1 \<le> csize \<Longrightarrow> concat (map content (decomposeBySize s csize 0)) = s"
  using decomposeBySizeLoop_concat [of csize 0 s 0 "[]"] by (simp add: decomposeBySize_def)

text \<open>Through \<^verbatim>\<open>decompose\<close> an overlap of zero is read as 200. For a chunk
  size of at most 200 (the tool \<^verbatim>\<open>rlm_decompose_context\<close> admits sizes from 100
  on) the step is then not positive, and every text gives its first chunk
  only.\<close>

lemma decompose_overlap_zero_first_chunk_only:
  assumes "s \<noteq> []" and "0 < c" and "c \<le> 200"
  shows "decompose eng s FIXED_SIZE
           \<lparr>chunkSize = Some c, overlap = Some 0, linesPerChunk = lp, pattern = pt\<rparr>
         = Inr [\<lparr>index = 0, content = take (nat c) s, startOffset = 0,
                  endOffset = min c (int (length s)), metadata = None\<rparr>]"
proof -
  have "slice s 0 (min c (int (length s))) = take (nat c) s"
    using assms(2) by (simp add: slice_nonneg min_def)
  then show ?thesis
    using assms
    by (simp add: decompose_def orDefault_def decomposeBySize_def)
       (subst decomposeBySizeLoop.simps, simp add: Let_def)
qed

text \<open>
  \<^bold>\<open>Claim C1.\<close> "For every text and every chunkSize >= 1, fixed-size
  decomposition invoked with overlap = 0 returns a chunk sequence whose
  contents, concatenated in index order, equal the original text exactly."

  \<^verbatim>\<open>decomposeBySize\<close> is private; fixed-size decomposition is invoked through
  \<^verbatim>\<open>decompose\<close>, which reads the overlap as \<^verbatim>\<open>options.overlap || DEFAULT_OVERLAP\<close>
  and so replaces an overlap of 0 by 200. On the text \<open>abc\<close> with
  \<open>chunkSize = 1\<close> and \<open>overlap = 0\<close> the step \<open>1 - 200\<close> is not positive, the
  loop leaves after its first round, and the only chunk is \<open>a\<close>: the contents
  do not give the text back.
\<close>

theorem C1_decompose_overlap_zero_loses_text:
  "decompose eng ''abc'' FIXED_SIZE
     \<lparr>chunkSize = Some 1, overlap = Some 0, linesPerChunk = None, pattern = None\<rparr>
   = Inr [\<lparr>index = 0, content = ''a'', startOffset = 0, endOffset = 1, metadata = None\<rparr>]"
  by code_simp

text \<open>
  \<^bold>\<open>Claim C9.\<close> "For every text, calling decompose with the fixed-size
  strategy and an explicit overlap of 0 returns the same chunk sequence as
  calling it with overlap 200 (the default), and calling it with the by-lines
  strategy and an explicit overlap of 0 returns the same chunk sequence as
  calling it with overlap 10, because zero-valued (falsy) options are replaced
  by the defaults before dispatch."
\<close>

theorem C9_overlap_zero_is_default:
  "decompose eng s FIXED_SIZE (opts\<lparr>overlap := Some 0\<rparr>)
     = decompose eng s FIXED_SIZE (opts\<lparr>overlap := Some 200\<rparr>) \<and>
   decompose eng s BY_LINES (opts\<lparr>overlap := Some 0\<rparr>)
     = decompose eng s BY_LINES (opts\<lparr>overlap := Some 10\<rparr>)"
  by (simp add: decompose_def orDefault_def)

subsection \<open>Chunking by lines\<close>

text \<open>The routine \<^verbatim>\<open>decomposeByLines\<close> itself, called with two lines per chunk
  and a line overlap of zero, cuts the four lines into two chunks.\<close>

lemma decomposeByLines_four_lines:
  "decomposeByLines (''line1'' @ [NL] @ ''line2'' @ [NL] @ ''line3'' @ [NL] @ ''line4'') 2 0
   = [\<lparr>index = 0, content = ''line1'' @ [NL] @ ''line2'', startOffset = 0, endOffset = 11,
        metadata = Some (LineRange 0 1)\<rparr>,
      \<lparr>index = 1, content = ''line3'' @ [NL] @ ''line4'', startOffset = 12, endOffset = 23,
        metadata = Some (LineRange 2 3)\<rparr>]"
  by code_simp

text \<open>
  \<^bold>\<open>Claim C5.\<close> "Decomposing the text "line1\nline2\nline3\nline4" with the
  by-lines strategy, linesPerChunk = 2 and overlap = 0 returns exactly two
  chunks: the first with content "line1\nline2", startOffset 0 and endOffset
  11, the second with content "line3\nline4", startOffset 12 and endOffset 23."

  Through \<^verbatim>\<open>decompose\<close> the overlap of 0 becomes \<^verbatim>\<open>options.overlap || 10\<close>, that
  is 10; the loop then advances by \<open>max 1 (2 - 10) = 1\<close> line and returns four
  chunks, each sharing a line with the one before.
\<close>

theorem C5_decompose_by_lines_four_chunks:
  "decompose eng (''line1'' @ [NL] @ ''line2'' @ [NL] @ ''line3'' @ [NL] @ ''line4'') BY_LINES
     \<lparr>chunkSize = None, overlap = Some 0, linesPerChunk = Some 2, pattern = None\<rparr>
   = Inr [\<lparr>index = 0, content = ''line1'' @ [NL] @ ''line2'', startOffset = 0, endOffset = 11,
            metadata = Some (LineRange 0 1)\<rparr>,
          \<lparr>index = 1, content = ''line2'' @ [NL] @ ''line3'', startOffset = 6, endOffset = 17,
            metadata = Some (LineRange 1 2)\<rparr>,
          \<lparr>index = 2, content = ''line3'' @ [NL] @ ''line4'', startOffset = 12, endOffset = 23,
            metadata = Some (LineRange 2 3)\<rparr>,
          \<lparr>index = 3, content = ''line4'', startOffset = 18, endOffset = 23,
            metadata = Some (LineRange 3 3)\<rparr>]"
  by code_simp

subsection \<open>Chunk indices\<close>

text \<open>
  \<^bold>\<open>Claim C4.\<close> "For every text, every strategy, and every options value,
  the chunk sequence returned by one decompose call has index values that are
  contiguous starting at 0 (the k-th returned chunk has index k) and the chunks
  appear in non-decreasing startOffset order."

  \<^verbatim>\<open>decomposeByParagraphs\<close> (and \<^verbatim>\<open>decomposeByRegex\<close>) number a chunk with the
  position of its piece in the split result, and drop the pieces that are
  blank. A text that starts with a blank line has an empty first piece, so its
  first chunk carries the index 1.
\<close>

theorem C4_paragraph_index_skips_blank_piece:
  "decompose eng ([NL, NL] @ ''abc'') BY_PARAGRAPHS opts
   = Inr [\<lparr>index = 1, content = ''abc'', startOffset = 2, endOffset = 5, metadata = None\<rparr>]"
  by code_simp

subsection \<open>Substring search\<close>

lemma findFirst_Some:
  "findFirst t s = Some k \<Longrightarrow> k + length t \<le> length s \<and> take (length t) (drop k s) = t"
proof (induction s arbitrary: k)
  case Nil
  then show ?case by (simp split: if_splits)
next
  case (Cons c cs)
  show ?case
  proof (cases "startsWith (c # cs) t")
    case True
    then have tk: "take (length t) (c # cs) = t" by (simp add: startsWith_def)
    have "length (take (length t) (c # cs)) = length t" by (simp only: tk)
    then have "length t \<le> length (c # cs)" by (simp add: min_def split: if_splits)
    with tk show ?thesis using Cons.prems True by simp
  next
    case False
    with Cons.prems obtain j where "findFirst t cs = Some j" "k = Suc j" by auto
    with Cons.IH [of j] show ?thesis by simp
  qed
qed

lemma indexOf_found:
  assumes "t \<noteq> []" and "indexOf s t pos \<noteq> - 1"
  shows "pos \<le> indexOf s t pos \<and> 0 \<le> indexOf s t pos
         \<and> indexOf s t pos + int (length t) \<le> int (length s)"
proof -
  define p where "p = min (nat (max pos 0)) (length s)"
  from assms(2) obtain k where k: "findFirst t (drop p s) = Some k" and r: "indexOf s t pos = int (p + k)"
    by (auto simp: indexOf_def p_def Let_def split: option.splits)
  from findFirst_Some [OF k] have b: "k + length t \<le> length s - p" by simp
  with assms(1) have "p < length s" by (cases t) auto
  then have "pos \<le> int p" by (simp add: p_def min_def split: if_splits)
  with b r \<open>p < length s\<close> show ?thesis by auto
qed

text \<open>For a search term that is not empty the loop of \<^verbatim>\<open>findAll\<close> returns:
  every offset found moves \<^verbatim>\<open>index\<close> forward by the length of the term, and
  no offset lies beyond the end of the searched text.\<close>

lemma findAllLoop_returns:
  assumes "t \<noteq> []"
  shows "\<exists>rest. findAllLoop sc t idx acc = Some (acc @ rest)
           \<and> sorted_wrt (\<lambda>a b. a + int (length t) \<le> b) rest
           \<and> (\<forall>x\<in>set rest. idx \<le> x)"
proof (induction "nat (int (length sc) + 1 - idx)" arbitrary: idx acc rule: less_induct)
  case less
  show ?case
  proof (cases "indexOf sc t idx = - 1")
    case True
    then have "findAllLoop sc t idx acc = Some acc"
      by (subst findAllLoop.simps) simp
    then show ?thesis by simp
  next
    case False
    define found where "found = indexOf sc t idx"
    from indexOf_found [OF assms False]
    have f: "idx \<le> found" "0 \<le> found" "found + int (length t) \<le> int (length sc)"
      by (simp_all add: found_def)
    from assms have lt: "0 < int (length t)" by simp
    have "nat (int (length sc) + 1 - (found + int (length t))) < nat (int (length sc) + 1 - idx)"
      using f lt by linarith
    from less [OF this, of "acc @ [found]"]
    obtain rest where rest: "findAllLoop sc t (found + int (length t)) (acc @ [found])
          = Some ((acc @ [found]) @ rest)"
        "sorted_wrt (\<lambda>a b. a + int (length t) \<le> b) rest"
        "\<forall>x\<in>set rest. found + int (length t) \<le> x"
      by blast
    have "findAllLoop sc t idx acc = Some (acc @ (found # rest))"
      using False rest(1) by (subst findAllLoop.simps) (simp add: found_def Let_def)
    moreover have "sorted_wrt (\<lambda>a b. a + int (length t) \<le> b) (found # rest)"
      using rest(2,3) by simp
    moreover have "\<forall>x\<in>set (found # rest). idx \<le> x"
      using rest(3) f(1) lt by auto
    ultimately show ?thesis by blast
  qed
qed

lemma sorted_wrt_gap_strict:
  "0 < d \<Longrightarrow> sorted_wrt (\<lambda>a b. a + d \<le> b) xs \<Longrightarrow> sorted_wrt (<) (xs :: int list)"
  by (erule sorted_wrt_mono_rel [rotated]) auto

lemma sorted_wrt_gap_nth:
  "sorted_wrt (\<lambda>a b. a + d \<le> b) xs \<Longrightarrow> Suc i < length xs \<Longrightarrow> xs ! i + d \<le> xs ! Suc i"
  by (simp add: sorted_wrt_iff_nth_less)

text \<open>
  \<^bold>\<open>Claim C10.\<close> "For every content string and every non-empty substring,
  the offsets returned by findAll are strictly increasing and any two
  consecutive offsets differ by at least the substring's length, so occurrences
  that overlap an already-reported occurrence are not reported (for example,
  searching "aa" in "aaa" returns only offset 0)."

  The call returns (\<open>Some\<close>), in both case modes; the witness below is the
  claim's example.
\<close>

theorem C10_findAll_offsets_spaced:
  "substring \<noteq> [] \<Longrightarrow>
   \<exists>offsets. findAll s substring caseSensitive = Some offsets
     \<and> sorted_wrt (<) offsets
     \<and> (\<forall>i. Suc i < length offsets \<longrightarrow>
            offsets ! i + int (length substring) \<le> offsets ! Suc i)"
proof -
  assume ne: "substring \<noteq> []"
  define sc where "sc = (if caseSensitive then s else toLowerCase s)"
  define st where "st = (if caseSensitive then substring else toLowerCase substring)"
  have len: "length st = length substring" and st: "st \<noteq> []"
    using ne by (auto simp: st_def toLowerCase_def)
  from findAllLoop_returns [OF st, of sc 0 "[]"]
  obtain rest where rest: "findAllLoop sc st 0 [] = Some rest"
      "sorted_wrt (\<lambda>a b. a + int (length st) \<le> b) rest"
    by auto
  have "findAll s substring caseSensitive = Some rest"
    using rest(1) by (simp add: findAll_def sc_def st_def)
  moreover have "sorted_wrt (<) rest"
    using sorted_wrt_gap_strict [OF _ rest(2)] st by simp
  moreover have "\<forall>i. Suc i < length rest \<longrightarrow> rest ! i + int (length substring) \<le> rest ! Suc i"
    using sorted_wrt_gap_nth [OF rest(2)] len by simp
  ultimately show ?thesis by blast
qed

theorem C10_findAll_aa_in_aaa:
  "''aa'' \<noteq> [] \<and> findAll ''aaa'' ''aa'' True = Some [0] \<and> findAll ''aaa'' ''aa'' False = Some [0]
   \<and> (\<exists>offsets. findAll ''aaa'' ''aa'' True = Some offsets \<and> sorted_wrt (<) offsets
        \<and> (\<forall>i. Suc i < length offsets \<longrightarrow>
               offsets ! i + int (length ''aa'') \<le> offsets ! Suc i))"
proof -
  have ne: "''aa'' \<noteq> []" by simp
  have "findAll ''aaa'' ''aa'' True = Some [0]" by code_simp
  moreover have "findAll ''aaa'' ''aa'' False = Some [0]" by code_simp
  ultimately show ?thesis
    using ne C10_findAll_offsets_spaced [OF ne, of "''aaa''" True] by blast
qed

text \<open>The example of the specification: case-insensitive search of \<open>abc\<close> in
  \<open>AbcABCabc\<close>.\<close>

lemma findAll_case_insensitive_example:
  "findAll ''AbcABCabc'' ''abc'' False = Some [0, 3, 6]"
  by code_simp

subsection \<open>By-lines chunking of a text without newline\<close>

lemma splitOn_no_sep: "sep \<notin> set s \<Longrightarrow> splitOn sep s = [s]"
  by (induction s) auto

lemma decomposeByLines_single_line:
  assumes "NL \<notin> set s"
  shows "decomposeByLines s perChunk ovl =
     [\<lparr>index = 0, content = (if 0 < perChunk then s else []),
       startOffset = 0, endOffset = (if 0 < perChunk then int (length s) else 0),
       metadata = Some (LineRange 0 (min perChunk 1 - 1))\<rparr>]"
proof -
  have sl: "slice [s] 0 perChunk = (if 0 < perChunk then [s] else [])"
    by (auto simp: slice_def sliceBound_def Let_def)
  have adv: "0 < nat (max 1 (perChunk - ovl))" by simp
  show ?thesis
    unfolding decomposeByLines_def splitOn_no_sep [OF assms]
    apply (subst decomposeByLinesLoop.simps)
    apply (subst decomposeByLinesLoop.simps)
    using adv by (simp add: Let_def sl)
qed

text \<open>
  \<^bold>\<open>Claim C3.\<close> "By-lines decomposition applied to the empty string returns
  an empty chunk sequence, and applied to any text containing no newline
  character returns exactly one chunk."

  The second half holds and covers the empty string as well: \<^verbatim>\<open>''.split('\n')\<close>
  is the one-element array of the empty line, so the loop runs once. As amended:
  by-lines decomposition of any text without newline, the empty string
  included, returns exactly one chunk; it starts at offset 0, ends at the
  length of its content, and its content is the whole text when the lines per
  chunk are positive (absent and 0 select the default 100). The counterexample
  is the empty string, whose one chunk is empty with offsets 0 and 0.
\<close>

theorem C3_by_lines_single_line_one_chunk:
  "NL \<notin> set s \<Longrightarrow>
   \<exists>c. decompose eng s BY_LINES opts = Inr [c] \<and> index c = 0 \<and> startOffset c = 0
     \<and> endOffset c = int (length (content c))
     \<and> (0 < orDefault (linesPerChunk opts) DEFAULT_LINES_PER_CHUNK \<longrightarrow> content c = s)"
  by (simp add: decompose_def decomposeByLines_single_line)

theorem C3_by_lines_empty_text_one_chunk:
  "decompose rejectingEngine [] BY_LINES
     \<lparr>chunkSize = None, overlap = None, linesPerChunk = None, pattern = None\<rparr>
   = Inr [\<lparr>index = 0, content = [], startOffset = 0, endOffset = 0,
            metadata = Some (LineRange 0 0)\<rparr>]"
  by code_simp

theorem C3_by_lines_hello_one_chunk:
  "NL \<notin> set ''hello'' \<and>
   (\<exists>c. decompose rejectingEngine ''hello'' BY_LINES
          \<lparr>chunkSize = None, overlap = None, linesPerChunk = None, pattern = None\<rparr> = Inr [c]
      \<and> content c = ''hello'' \<and> startOffset c = 0 \<and> endOffset c = 5)"
proof -
  have h: "NL \<notin> set ''hello''" by simp
  show ?thesis
    using h C3_by_lines_single_line_one_chunk [OF h, of rejectingEngine
      "\<lparr>chunkSize = None, overlap = None, linesPerChunk = None, pattern = None\<rparr>"]
    by (auto simp: orDefault_def)
qed

subsection \<open>An invalid search pattern\<close>

text \<open>\<^verbatim>\<open>search\<close> turns a pattern that does not compile into the empty result,
  and never throws; so the \<^verbatim>\<open>catch\<close> clause of the tool handler, which would
  answer "Error: Invalid regex pattern", is never entered.\<close>

lemma search_invalid_pattern:
  "newRegExp eng pat (case flags opts of None \<Rightarrow> ''gi'' | Some f \<Rightarrow> f) = Inl e
   \<Longrightarrow> search eng s pat opts = Inr []"
  by (simp add: search_def searchTry_def)

lemma rlm_search_context_invalid_pattern:
  assumes "lookupContext mgr (sc_session_id params) (sc_context_id params) = Some s"
    and "newRegExp eng (sc_pattern params) (sc_flags params) = Inl e"
  shows "rlm_search_context mgr eng params
           = ToolOutput \<lparr>out_pattern = sc_pattern params, total_matches = 0, matches = []\<rparr>"
  using assms by (simp add: rlm_search_context_def search_def searchTry_def)

lemma rlm_search_context_no_regex_error:
  "rlm_search_context mgr eng params \<noteq> ToolText (''Error: Invalid regex pattern - '' @ msg)"
  by (auto simp: rlm_search_context_def search_def notFound_def split: option.splits sum.splits)

text \<open>
  \<^bold>\<open>Claim C6.\<close> "For every text and every syntactically invalid regex
  pattern, the lower-level search routine returns an empty match sequence and
  signals no error (it does not throw), while at the rlm_search_context tool
  boundary an invalid pattern that fails to compile is reported as an explicit
  error message."

  The first half holds (\<open>search_invalid_pattern\<close>). The second does not: for
  the pattern \<open>(\<close>, which no engine compiles, the tool answers with the
  structured output of zero matches, not with the error message of its
  \<^verbatim>\<open>catch\<close> clause.
\<close>

theorem C6_invalid_pattern_is_empty_result_at_tool:
  "search rejectingEngine ''abcdef'' ''(''
      \<lparr>flags = Some ''gi'', contextChars = Some 100, maxResults = Some 50,
       includeLineNumbers = Some True\<rparr> = Inr [] \<and>
   rlm_search_context exampleManager rejectingEngine exampleSearch
     = ToolOutput \<lparr>out_pattern = ''('', total_matches = 0, matches = []\<rparr>"
  by (simp add: rlm_search_context_def search_def searchTry_def rejectingEngine_def
      exampleManager_def exampleSearch_def lookupContext_def)

subsection \<open>Retrieving chunks by index\<close>

text \<open>\<^verbatim>\<open>rlm_get_chunks\<close> passes no pattern, so its call of \<^verbatim>\<open>decompose\<close>
  returns for every strategy.\<close>

lemma decompose_no_pattern_returns:
  "pattern opts = None \<Longrightarrow> \<exists>cs. decompose eng s strategy opts = Inr cs"
  by (cases strategy) (simp_all add: decompose_def decomposeByRegex_def patternOrDefault_def)

text \<open>
  \<^bold>\<open>Claim C8.\<close> "For every get_chunks request, the response contains
  exactly those requested indices that fall in [0, total number of chunks of
  the re-derived decomposition), in request order; invalid indices are silently
  omitted rather than producing an error, and when at least one requested index
  is out of range the returned count is strictly less than the requested
  count."

  Stated for a request whose context is found (otherwise the handler answers
  "Context not found" before it decomposes anything).
\<close>

theorem C8_get_chunks_valid_indices:
  assumes "lookupContext mgr (gc_session_id params) (gc_context_id params) = Some s"
  shows "\<exists>allChunks out.
     decompose eng s (gc_strategy params)
       \<lparr>chunkSize = Some (gc_chunk_size params), overlap = Some (gc_overlap params),
        linesPerChunk = None, pattern = None\<rparr> = Inr allChunks
     \<and> rlm_get_chunks mgr eng params = ToolOutput out
     \<and> map view_index (chunks out)
         = filter (\<lambda>i. 0 \<le> i \<and> i < int (length allChunks)) (gc_chunk_indices params)
     \<and> (\<forall>v\<in>set (chunks out).
           view_content v = content (allChunks ! nat (view_index v))
           \<and> start_offset v = startOffset (allChunks ! nat (view_index v))
           \<and> end_offset v = endOffset (allChunks ! nat (view_index v)))
     \<and> requested out = length (gc_chunk_indices params)
     \<and> returned out = length (chunks out)
     \<and> ((\<exists>i\<in>set (gc_chunk_indices params). \<not> (0 \<le> i \<and> i < int (length allChunks)))
          \<longrightarrow> returned out < requested out)"
proof -
  let ?opts = "\<lparr>chunkSize = Some (gc_chunk_size params), overlap = Some (gc_overlap params),
        linesPerChunk = None, pattern = None\<rparr>"
  obtain allChunks where d: "decompose eng s (gc_strategy params) ?opts = Inr allChunks"
    using decompose_no_pattern_returns [of ?opts eng s "gc_strategy params"] by auto
  let ?valid = "\<lambda>i. 0 \<le> i \<and> i < int (length allChunks)"
  let ?picked = "map (\<lambda>i. \<lparr>view_index = i, view_content = content (allChunks ! nat i),
                       start_offset = startOffset (allChunks ! nat i),
                       end_offset = endOffset (allChunks ! nat i)\<rparr>)
                   (filter ?valid (gc_chunk_indices params))"
  let ?out = "\<lparr>requested = length (gc_chunk_indices params), returned = length ?picked,
               chunks = ?picked\<rparr>"
  have r: "rlm_get_chunks mgr eng params = ToolOutput ?out"
    using assms d by (simp add: rlm_get_chunks_def Let_def)
  have m: "map view_index ?picked = filter ?valid (gc_chunk_indices params)"
    by (simp add: comp_def)
  have lt: "(\<exists>i\<in>set (gc_chunk_indices params). \<not> ?valid i)
        \<longrightarrow> length (filter ?valid (gc_chunk_indices params)) < length (gc_chunk_indices params)"
    by (metis (mono_tags, lifting) length_filter_less)
  show ?thesis
    apply (rule exI [of _ allChunks], rule exI [of _ ?out])
    using d r m lt by auto
qed


theorem C8_get_chunks_example:
  "\<exists>out. rlm_get_chunks exampleManager rejectingEngine exampleGetChunks = ToolOutput out
     \<and> map view_index (chunks out) = [0, 1] \<and> requested out = 3 \<and> returned out = 2"
proof -
  have l: "lookupContext exampleManager (gc_session_id exampleGetChunks)
             (gc_context_id exampleGetChunks) = Some ''abcdef''"
    by (simp add: lookupContext_def exampleManager_def exampleGetChunks_def)
  have d: "decompose rejectingEngine ''abcdef'' FIXED_SIZE
             \<lparr>chunkSize = Some 2, overlap = Some 1, linesPerChunk = None, pattern = None\<rparr>
           = Inr [\<lparr>index = 0, content = ''ab'', startOffset = 0, endOffset = 2, metadata = None\<rparr>,
                  \<lparr>index = 1, content = ''bc'', startOffset = 1, endOffset = 3, metadata = None\<rparr>,
                  \<lparr>index = 2, content = ''cd'', startOffset = 2, endOffset = 4, metadata = None\<rparr>,
                  \<lparr>index = 3, content = ''de'', startOffset = 3, endOffset = 5, metadata = None\<rparr>,
                  \<lparr>index = 4, content = ''ef'', startOffset = 4, endOffset = 6, metadata = None\<rparr>,
                  \<lparr>index = 5, content = ''f'', startOffset = 5, endOffset = 6, metadata = None\<rparr>]"
    by code_simp
  from C8_get_chunks_valid_indices [OF l, of rejectingEngine]
  obtain allChunks out where
    o: "decompose rejectingEngine ''abcdef'' (gc_strategy exampleGetChunks)
          \<lparr>chunkSize = Some (gc_chunk_size exampleGetChunks),
           overlap = Some (gc_overlap exampleGetChunks),
           linesPerChunk = None, pattern = None\<rparr> = Inr allChunks"
       "rlm_get_chunks exampleManager rejectingEngine exampleGetChunks = ToolOutput out"
       "map view_index (chunks out)
         = filter (\<lambda>i. 0 \<le> i \<and> i < int (length allChunks)) (gc_chunk_indices exampleGetChunks)"
       "requested out = length (gc_chunk_indices exampleGetChunks)"
       "returned out = length (chunks out)"
    by blast
  from o(1) d have len: "length allChunks = 6"
    by (auto simp: exampleGetChunks_def)
  from o(3) len have ix: "map view_index (chunks out) = [0, 1]"
    by (simp add: exampleGetChunks_def)
  then have "length (chunks out) = 2"
    by (metis length_map length_Cons list.size(3) numeral_2_eq_2)
  with o ix show ?thesis
    by (auto simp: exampleGetChunks_def)
qed

subsection \<open>Sections: a text without header\<close>

text \<open>The scan for the section pattern finds a match at an offset exactly
  when the text has a header there.\<close>

lemma takeWhile_eq_replicate:
  "takeWhile (\<lambda>c. c = a) xs = replicate (length (takeWhile (\<lambda>c. c = a) xs)) a"
  by (induction xs) auto

lemma titleStart_Some:
  "titleStart r w = Some j \<Longrightarrow> 1 \<le> j \<and> j \<le> w \<and> j < length r \<and> \<not> isLineTerminator (r ! j)"
  by (induction w) (auto split: if_splits)

lemma titleStart_None:
  "titleStart r w = None \<Longrightarrow> 1 \<le> j \<Longrightarrow> j \<le> w \<Longrightarrow> j < length r \<Longrightarrow> isLineTerminator (r ! j)"
  by (induction w) (auto split: if_splits simp: le_Suc_eq)

lemma take_takeWhile_all:
  "j \<le> length (takeWhile P xs) \<Longrightarrow> list_all P (take j xs)"
proof -
  assume j: "j \<le> length (takeWhile P xs)"
  have "take j xs = take j (takeWhile P xs)"
    by (metis j append_eq_conv_conj append_take_drop_id take_take min_absorb1 takeWhile_dropWhile_id take_append diff_is_0_eq take_0 append_Nil2)
  moreover have "list_all P (takeWhile P xs)"
    by (simp add: list_all_iff) (meson set_takeWhileD)
  ultimately show ?thesis
    by (metis list_all_iff in_set_takeD)
qed

lemma sectionMatchAt_sound:
  assumes "sectionMatchAt s p = Some r"
  shows "headerAt s p"
proof -
  define hashes where "hashes = length (takeWhile (\<lambda>c. c = CHR ''#'') (drop p s))"
  define rest where "rest = drop (p + hashes) s"
  define w where "w = length (takeWhile isWhiteSpace rest)"
  from assms have ls: "atLineStart s p" and h: "1 \<le> hashes" "hashes \<le> 6"
    by (auto simp: sectionMatchAt_def Let_def hashes_def Suc_le_eq split: if_splits)
  from assms obtain j where j: "titleStart rest w = Some j"
    by (auto simp: sectionMatchAt_def Let_def hashes_def rest_def w_def split: if_splits option.splits)
  from titleStart_Some [OF j]
  have jb: "1 \<le> j" "j \<le> w" "j < length rest" "\<not> isLineTerminator (rest ! j)" by auto
  have "drop p s = takeWhile (\<lambda>c. c = CHR ''#'') (drop p s) @ dropWhile (\<lambda>c. c = CHR ''#'') (drop p s)"
    by simp
  also have "dropWhile (\<lambda>c. c = CHR ''#'') (drop p s) = drop hashes (drop p s)"
    by (simp add: hashes_def dropWhile_eq_drop)
  also have "drop hashes (drop p s) = rest"
    by (simp add: rest_def add.commute)
  also have "takeWhile (\<lambda>c. c = CHR ''#'') (drop p s) = replicate hashes (CHR ''#'')"
    unfolding hashes_def by (rule takeWhile_eq_replicate)
  finally have d: "drop p s = replicate hashes (CHR ''#'') @ rest" .
  have r: "rest = take j rest @ [rest ! j] @ drop (Suc j) rest"
    using jb(3) by (simp add: id_take_nth_drop)
  have ws: "list_all isWhiteSpace (take j rest)"
    using jb(2) unfolding w_def by (rule take_takeWhile_all)
  have ne: "take j rest \<noteq> []"
    using jb(1,3) by auto
  have "drop p s = replicate hashes (CHR ''#'') @ take j rest @ [rest ! j] @ drop (Suc j) rest"
    using d r by simp
  with ls h ws ne jb(4) show ?thesis
    unfolding headerAt_def
    by (intro conjI exI [of _ hashes] exI [of _ "take j rest"] exI [of _ "[rest ! j]"]
          exI [of _ "drop (Suc j) rest"]) simp_all
qed

lemma sectionMatches_no_header:
  "\<forall>p. \<not> headerAt s p \<Longrightarrow> sectionMatches s k = []"
proof (induction s k rule: sectionMatches.induct)
  case (1 s k)
  have n: "sectionMatchAt s k = None"
    using 1(3) sectionMatchAt_sound [of s k] by (cases "sectionMatchAt s k") auto
  show ?case
    using 1(1) [OF _ n 1(3)] n by (subst sectionMatches.simps) simp
qed

lemma takeWhile_replicate_stop:
  "x \<noteq> a \<Longrightarrow> takeWhile (\<lambda>c. c = a) (replicate h a @ x # xs) = replicate h a"
  by (induction h) auto

lemma sectionMatchAt_complete:
  assumes "headerAt s p"
  shows "sectionMatchAt s p \<noteq> None"
proof -
  from assms obtain h ws title rest where ls: "atLineStart s p"
    and h: "1 \<le> h" "h \<le> 6"
    and ws: "ws \<noteq> []" "list_all isWhiteSpace ws"
    and title: "title \<noteq> []" "list_all (\<lambda>c. \<not> isLineTerminator c) title"
    and d: "drop p s = replicate h (CHR ''#'') @ ws @ title @ rest"
    unfolding headerAt_def by blast
  from ws obtain w0 ws' where w0: "ws = w0 # ws'" "isWhiteSpace w0" "w0 \<noteq> CHR ''#''"
    by (cases ws) (auto simp: isWhiteSpace_def)
  have tw: "takeWhile (\<lambda>c. c = CHR ''#'') (drop p s) = replicate h (CHR ''#'')"
    unfolding d using w0 by (simp add: takeWhile_replicate_stop)
  then have hashes: "length (takeWhile (\<lambda>c. c = CHR ''#'') (drop p s)) = h" by simp
  have "drop (p + h) s = drop h (drop p s)" by (simp add: add.commute)
  then have r: "drop (p + h) s = ws @ title @ rest" by (simp add: d)
  have "takeWhile isWhiteSpace (ws @ title @ rest) = ws @ takeWhile isWhiteSpace (title @ rest)"
    using ws(2) by (intro takeWhile_append2) (simp add: list_all_iff)
  then have w: "length ws \<le> length (takeWhile isWhiteSpace (ws @ title @ rest))" by simp
  from title obtain t0 title' where t0: "title = t0 # title'" "\<not> isLineTerminator t0"
    by (cases title) auto
  have nth: "(ws @ title @ rest) ! length ws = t0" by (simp add: t0 nth_append)
  have "titleStart (ws @ title @ rest) (length (takeWhile isWhiteSpace (ws @ title @ rest))) \<noteq> None"
  proof
    assume "titleStart (ws @ title @ rest) (length (takeWhile isWhiteSpace (ws @ title @ rest))) = None"
    from titleStart_None [OF this, of "length ws"] w ws(1) t0 nth
    show False by (cases ws) auto
  qed
  then show ?thesis
    using ls h by (auto simp: sectionMatchAt_def Let_def hashes r)
qed

lemma headerAt_iff: "headerAt s p \<longleftrightarrow> sectionMatchAt s p \<noteq> None"
  using sectionMatchAt_sound [of s p] sectionMatchAt_complete [of s p] by auto

lemma sectionMatchAt_in_text: "sectionMatchAt s p \<noteq> None \<Longrightarrow> p < length s"
proof (rule ccontr)
  assume a: "sectionMatchAt s p \<noteq> None" and "\<not> p < length s"
  then have "drop p s = []" by simp
  then have "sectionMatchAt s p = None" by (simp add: sectionMatchAt_def)
  with a show False by simp
qed

lemma no_header_iff:
  "(\<forall>p. \<not> headerAt s p) \<longleftrightarrow> list_all (\<lambda>p. sectionMatchAt s p = None) [0..<length s]"
proof
  assume "\<forall>p. \<not> headerAt s p"
  then have "\<forall>p. sectionMatchAt s p = None"
    using headerAt_iff by blast
  then show "list_all (\<lambda>p. sectionMatchAt s p = None) [0..<length s]"
    by (simp add: list_all_iff)
next
  assume a: "list_all (\<lambda>p. sectionMatchAt s p = None) [0..<length s]"
  show "\<forall>p. \<not> headerAt s p"
  proof
    fix p
    show "\<not> headerAt s p"
    proof (cases "p < length s")
      case True
      with a have "sectionMatchAt s p = None" by (simp add: list_all_iff)
      then show ?thesis using headerAt_iff by blast
    next
      case False
      with sectionMatchAt_in_text [of s p] have "sectionMatchAt s p = None" by blast
      then show ?thesis using headerAt_iff by blast
    qed
  qed
qed

text \<open>What the pattern takes for a header, on small texts: a marker followed
  by a line break and a title on the next line counts; a marker followed by one
  space and nothing else does not; seven markers do not.\<close>

lemma header_examples:
  "headerAt (''x'' @ [NL] @ ''# Title'') 2 \<and> headerAt (''x'' @ [NL] @ ''#'' @ [NL] @ ''y'') 2
   \<and> headerAt (''#  '') 0 \<and> \<not> headerAt (''# '') 0 \<and> \<not> headerAt (''####### x'') 0"
  unfolding headerAt_iff by code_simp


text \<open>A header line in the narrow sense is a header: a text without header has
  no such line either.\<close>

lemma splitOn_positions:
  "\<exists>l0 ls. splitOn NL s = l0 # ls \<and> (\<exists>rest. s = l0 @ rest)
     \<and> (\<forall>l\<in>set ls. \<exists>pre rest. s = pre @ NL # l @ rest)"
proof (induction s)
  case Nil
  show ?case by simp
next
  case (Cons c cs)
  then obtain l0 ls where sp: "splitOn NL cs = l0 # ls" and r0: "\<exists>rest. cs = l0 @ rest"
    and rs: "\<forall>l\<in>set ls. \<exists>pre rest. cs = pre @ NL # l @ rest"
    by blast
  show ?case
  proof (cases "c = NL")
    case True
    have "\<exists>pre rest. c # cs = pre @ NL # l @ rest" if "l \<in> set (l0 # ls)" for l
    proof (cases "l = l0")
      case True
      from r0 obtain rest where "cs = l0 @ rest" by blast
      then have "c # cs = [] @ NL # l @ rest" using \<open>c = NL\<close> True by simp
      then show ?thesis by blast
    next
      case False
      with that rs obtain pre rest where "cs = pre @ NL # l @ rest" by auto
      then have "c # cs = (c # pre) @ NL # l @ rest" by simp
      then show ?thesis by blast
    qed
    then show ?thesis using True sp by auto
  next
    case False
    from r0 obtain rest where "cs = l0 @ rest" by blast
    then have a: "c # cs = (c # l0) @ rest" by simp
    have "\<exists>pre rest. c # cs = pre @ NL # l @ rest" if "l \<in> set ls" for l
    proof -
      from that rs obtain pre rest where "cs = pre @ NL # l @ rest" by auto
      then have "c # cs = (c # pre) @ NL # l @ rest" by simp
      then show ?thesis by blast
    qed
    then show ?thesis using False sp a by auto
  qed
qed

lemma line_at_offset:
  assumes "l \<in> set (splitOn NL s)"
  shows "\<exists>p rest. atLineStart s p \<and> drop p s = l @ rest"
proof -
  from splitOn_positions [of s] obtain l0 ls where sp: "splitOn NL s = l0 # ls"
    and r0: "\<exists>rest. s = l0 @ rest"
    and rs: "\<forall>l\<in>set ls. \<exists>pre rest. s = pre @ NL # l @ rest"
    by blast
  show ?thesis
  proof (cases "l = l0")
    case True
    from r0 obtain rest where "s = l0 @ rest" by blast
    then have "atLineStart s 0 \<and> drop 0 s = l @ rest" using True by (simp add: atLineStart_def)
    then show ?thesis by blast
  next
    case False
    with assms sp rs obtain pre rest where s: "s = pre @ NL # l @ rest" by auto
    have "atLineStart s (Suc (length pre))"
      by (simp add: atLineStart_def s isLineTerminator_def nth_append)
    moreover have "drop (Suc (length pre)) s = l @ rest" by (simp add: s)
    ultimately show ?thesis by blast
  qed
qed

lemma headerLine_headerAt:
  assumes "hasHeaderLine s"
  shows "\<exists>p. headerAt s p"
proof -
  from assms obtain l where l: "l \<in> set (splitOn NL s)" "headerLine l"
    by (auto simp: hasHeaderLine_def list_ex_iff)
  define h where "h = length (takeWhile (\<lambda>c. c = CHR ''#'') l)"
  from l(2) obtain title where h: "1 \<le> h" "h \<le> 6" and d: "drop h l = CHR '' '' # title"
    and t: "title \<noteq> []" "\<not> isLineTerminator (hd title)"
    by (auto simp: headerLine_def Let_def h_def split: list.splits)
  have "l = takeWhile (\<lambda>c. c = CHR ''#'') l @ dropWhile (\<lambda>c. c = CHR ''#'') l" by simp
  also have "dropWhile (\<lambda>c. c = CHR ''#'') l = drop h l" by (simp add: h_def dropWhile_eq_drop)
  also have "takeWhile (\<lambda>c. c = CHR ''#'') l = replicate h (CHR ''#'')"
    unfolding h_def by (rule takeWhile_eq_replicate)
  finally have le: "l = replicate h (CHR ''#'') @ CHR '' '' # title" by (simp add: d)
  from t obtain t0 title' where tt: "title = t0 # title'" "\<not> isLineTerminator t0"
    by (cases title) auto
  from line_at_offset [OF l(1)] obtain p rest where p: "atLineStart s p" "drop p s = l @ rest"
    by blast
  have "drop p s = replicate h (CHR ''#'') @ [CHR '' ''] @ [t0] @ (title' @ rest)"
    using p(2) le tt by simp
  with p(1) h tt(2) have "headerAt s p"
    unfolding headerAt_def
    by (intro conjI exI [of _ h] exI [of _ "[CHR '' '']"] exI [of _ "[t0]"]
          exI [of _ "title' @ rest"]) (simp_all add: isWhiteSpace_def)
  then show ?thesis ..
qed

text \<open>A marker followed by a tab is a header for the code as well.\<close>

lemma marker_then_tab_example:
  "\<not> hasHeaderLine (''x'' @ [NL] @ ''#'' @ [CHR 0x09] @ ''T'') \<and>
   decompose eng (''x'' @ [NL] @ ''#'' @ [CHR 0x09] @ ''T'') BY_SECTIONS opts
     = Inr [\<lparr>index = 0, content = ''x'', startOffset = 0, endOffset = 2,
              metadata = Some Preamble\<rparr>,
            \<lparr>index = 1, content = ''#'' @ [CHR 0x09] @ ''T'', startOffset = 2, endOffset = 5,
              metadata = Some (Section 1 ''T'')\<rparr>]"
  by code_simp

text \<open>
  \<^bold>\<open>Claim C7.\<close> "For every text containing no Markdown header line (no 1-6
  leading '#' markers followed by a space and a title), including the empty
  text, by-sections decomposition returns exactly one chunk whose content
  equals the whole input, with startOffset 0 and endOffset equal to the text's
  length."

  In these words the claim fails: the three lines \<open>x\<close>, \<open>#\<close>, \<open>y\<close> hold no
  marker followed by a space and a title, yet \<^verbatim>\<open>\s+\<close> takes the line break
  after the marker and \<^verbatim>\<open>(.+)\<close> takes \<open>y\<close> for the title, so the code returns
  a preamble and a section. As amended, a header is what \<open>headerAt\<close> says: the
  markers at the start of a line, then white space (spaces, tabs or line
  breaks), then a character that is no line terminator. For every text without
  such a header, the empty text included, by-sections decomposition returns
  the one chunk of the claim. The witness takes the empty text and a text of
  two lines, each line holding a marker that heads no title.
\<close>

theorem C7_no_header_single_chunk:
  "\<forall>p. \<not> headerAt s p \<Longrightarrow>
   decompose eng s BY_SECTIONS opts
     = Inr [\<lparr>index = 0, content = s, startOffset = 0, endOffset = int (length s),
              metadata = None\<rparr>]"
  by (simp add: decompose_def decomposeBySections_def sectionMatches_no_header)


theorem C7_marker_then_line_break:
  "\<not> hasHeaderLine (''x'' @ [NL] @ ''#'' @ [NL] @ ''y'') \<and>
   decompose rejectingEngine (''x'' @ [NL] @ ''#'' @ [NL] @ ''y'') BY_SECTIONS
       \<lparr>chunkSize = None, overlap = None, linesPerChunk = None, pattern = None\<rparr>
     = Inr [\<lparr>index = 0, content = ''x'', startOffset = 0, endOffset = 2,
              metadata = Some Preamble\<rparr>,
            \<lparr>index = 1, content = ''#'' @ [NL] @ ''y'', startOffset = 2, endOffset = 5,
              metadata = Some (Section 1 ''y'')\<rparr>]"
  by code_simp

theorem C7_no_header_examples:
  "(\<forall>p. \<not> headerAt [] p) \<and> (\<forall>p. \<not> headerAt (''C# notes'' @ [NL] @ ''#tag'') p) \<and>
   decompose rejectingEngine [] BY_SECTIONS
       \<lparr>chunkSize = None, overlap = None, linesPerChunk = None, pattern = None\<rparr>
     = Inr [\<lparr>index = 0, content = [], startOffset = 0, endOffset = 0, metadata = None\<rparr>] \<and>
   decompose rejectingEngine (''C# notes'' @ [NL] @ ''#tag'') BY_SECTIONS
       \<lparr>chunkSize = None, overlap = None, linesPerChunk = None, pattern = None\<rparr>
     = Inr [\<lparr>index = 0, content = ''C# notes'' @ [NL] @ ''#tag'', startOffset = 0,
              endOffset = 13, metadata = None\<rparr>]"
proof -
  have e: "\<forall>p. \<not> headerAt [] p"
    by (simp add: no_header_iff)
  have t: "\<forall>p. \<not> headerAt (''C# notes'' @ [NL] @ ''#tag'') p"
    unfolding no_header_iff by code_simp
  show ?thesis
    using e t
      C7_no_header_single_chunk [OF e, of rejectingEngine
        "\<lparr>chunkSize = None, overlap = None, linesPerChunk = None, pattern = None\<rparr>"]
      C7_no_header_single_chunk [OF t, of rejectingEngine
        "\<lparr>chunkSize = None, overlap = None, linesPerChunk = None, pattern = None\<rparr>"]
    by simp
qed


subsection \<open>Chunk offsets: fixed size\<close>

lemma decomposeBySizeLoop_within:
  "0 < csize \<Longrightarrow> 0 \<le> offset \<Longrightarrow> list_all (withinText s) acc \<Longrightarrow>
   list_all (withinText s) (decomposeBySizeLoop s csize ovl idx offset acc)"
proof (induction s csize ovl idx offset acc rule: decomposeBySizeLoop.induct)
  case (1 s csize ovl idx offset acc)
  show ?case
  proof (cases "offset < int (length s)")
    case False
    then show ?thesis using 1(4) by (subst decomposeBySizeLoop.simps) simp
  next
    case True
    let ?e = "min (offset + csize) (int (length s))"
    let ?c = "\<lparr>index = idx, content = slice s offset ?e,
               startOffset = offset, endOffset = ?e, metadata = None\<rparr>"
    have "withinText s ?c"
      using 1(2,3) True by (simp add: withinText_def)
    with 1(4) have w: "list_all (withinText s) (acc @ [?c])"
      by simp
    show ?thesis
    proof (cases "csize - ovl \<le> 0")
      case True
      then show ?thesis using \<open>offset < int (length s)\<close> w
        by (subst decomposeBySizeLoop.simps) (simp add: Let_def)
    next
      case False
      have "list_all (withinText s)
              (decomposeBySizeLoop s csize ovl (idx + 1) (offset + (csize - ovl)) (acc @ [?c]))"
        using 1(1) [OF True refl refl False 1(2) _ w] 1(3) False by simp
      then show ?thesis using \<open>offset < int (length s)\<close> False
        by (subst decomposeBySizeLoop.simps) (simp add: Let_def)
    qed
  qed
qed

lemma decomposeBySize_within:
  "0 < csize \<Longrightarrow> list_all (withinText s) (decomposeBySize s csize ovl)"
  unfolding decomposeBySize_def by (rule decomposeBySizeLoop_within) simp_all


subsection \<open>Chunk offsets: lines\<close>

text \<open>Joining the lines of a text gives the text back, so the length of the
  text is the weight of its lines less the one newline that the last line does
  not have. At the head of the loop \<^verbatim>\<open>charOffset\<close> is the weight of the lines
  before \<^verbatim>\<open>lineIndex\<close>.\<close>

lemma weight_simps [simp]:
  "weight [] = 0" "weight (l # ls) = int (length l) + 1 + weight ls"
  "weight (xs @ ys) = weight xs + weight ys"
  by (simp_all add: weight_def)

lemma weight_nonneg: "0 \<le> weight ls"
  by (induction ls) auto

lemma weight_pos: "ls \<noteq> [] \<Longrightarrow> 1 \<le> weight ls"
  using weight_nonneg by (cases ls) (auto simp: add.commute add_increasing2)

lemma splitOn_nonempty: "splitOn sep s \<noteq> []"
  by (induction s) (auto split: list.splits)

lemma joinWith_Cons_Cons: "joinWith sep ((c # l) # ls) = c # joinWith sep (l # ls)"
  by (cases ls) auto

lemma joinWith_splitOn: "joinWith sep (splitOn sep s) = s"
proof (induction s)
  case Nil
  show ?case by simp
next
  case (Cons c cs)
  obtain l ls where sp: "splitOn sep cs = l # ls"
    using splitOn_nonempty [of sep cs] by (cases "splitOn sep cs") auto
  show ?case
  proof (cases "c = sep")
    case True
    then show ?thesis using Cons.IH sp by simp
  next
    case False
    then show ?thesis using Cons.IH sp by (simp add: joinWith_Cons_Cons)
  qed
qed

lemma length_joinWith:
  "int (length (joinWith sep ls)) = weight ls - (if ls = [] then 0 else 1)"
  by (induction sep ls rule: joinWith.induct) auto

lemma advanceOffset_weight:
  "advanceOffset lines k a c = c + weight (take a (drop k lines))"
proof -
  have "fold (\<lambda>l acc. acc + int (length l) + 1) xs c = c + weight xs" for xs c
    by (induction xs arbitrary: c) auto
  then show ?thesis by (simp add: advanceOffset_def)
qed

lemma slice_from_index:
  assumes "k < length xs"
  shows "\<exists>m. slice xs (int k) (int k + d) = take m (drop k xs)"
proof -
  have "slice xs (int k) (int k + d)
          = take (sliceBound (length xs) (int k + d) - k) (drop k xs)"
    using assms by (simp add: slice_def sliceBound_def Let_def min_def)
  then show ?thesis ..
qed

lemma line_chunk_fits:
  assumes "k < length lines"
  shows "weight (take k lines) + int (length (joinWith sep (take m (drop k lines))))
           \<le> int (length (joinWith sep lines))"
proof -
  let ?A = "take k lines" and ?B = "take m (drop k lines)" and ?C = "drop m (drop k lines)"
  have "lines = ?A @ ?B @ ?C" by (metis append_take_drop_id)
  then have "weight lines = weight ?A + weight ?B + weight ?C"
    by (metis weight_simps(3) add.assoc)
  moreover have "lines \<noteq> []" using assms by auto
  moreover have "?B = [] \<Longrightarrow> 1 \<le> weight ?C"
    using assms by (intro weight_pos) auto
  moreover have "0 \<le> weight ?C" by (rule weight_nonneg)
  ultimately show ?thesis
    by (auto simp: length_joinWith split: if_splits)
qed

lemma decomposeByLinesLoop_within:
  "charOffset = weight (take lineIndex lines) \<Longrightarrow>
   list_all (withinText (joinWith NL lines)) acc \<Longrightarrow>
   list_all (withinText (joinWith NL lines))
     (decomposeByLinesLoop lines perChunk ovl idx lineIndex charOffset acc)"
proof (induction lines perChunk ovl idx lineIndex charOffset acc
    rule: decomposeByLinesLoop.induct)
  case (1 lines perChunk ovl idx lineIndex charOffset acc)
  show ?case
  proof (cases "lineIndex < length lines")
    case False
    then show ?thesis using 1(3) by (subst decomposeByLinesLoop.simps) simp
  next
    case True
    define chunkContent where
      "chunkContent = joinWith NL (slice lines (int lineIndex) (int lineIndex + perChunk))"
    define adv where "adv = nat (max 1 (perChunk - ovl))"
    let ?c = "\<lparr>index = idx, content = chunkContent, startOffset = charOffset,
               endOffset = charOffset + int (length chunkContent),
               metadata = Some (LineRange (int lineIndex)
                 (min (int lineIndex + perChunk) (int (length lines)) - 1))\<rparr>"
    obtain m where m: "slice lines (int lineIndex) (int lineIndex + perChunk)
          = take m (drop lineIndex lines)"
      using slice_from_index [OF True] by blast
    have "charOffset + int (length chunkContent) \<le> int (length (joinWith NL lines))"
      unfolding chunkContent_def m 1(2) by (rule line_chunk_fits [OF True])
    moreover have "0 \<le> charOffset" unfolding 1(2) by (rule weight_nonneg)
    ultimately have "withinText (joinWith NL lines) ?c"
      by (simp add: withinText_def)
    with 1(3) have w: "list_all (withinText (joinWith NL lines)) (acc @ [?c])" by simp
    have off: "advanceOffset lines lineIndex adv charOffset = weight (take (lineIndex + adv) lines)"
      unfolding advanceOffset_weight 1(2) by (simp add: take_add)
    have "list_all (withinText (joinWith NL lines))
            (decomposeByLinesLoop lines perChunk ovl (idx + 1) (lineIndex + adv)
               (advanceOffset lines lineIndex adv charOffset) (acc @ [?c]))"
      using 1(1) [OF True refl refl refl refl refl, folded chunkContent_def adv_def, OF off w] .
    then show ?thesis using True
      by (subst decomposeByLinesLoop.simps) (simp add: Let_def chunkContent_def adv_def)
  qed
qed

lemma decomposeByLines_within:
  "list_all (withinText s) (decomposeByLines s perChunk ovl)"
  using decomposeByLinesLoop_within [of 0 0 "splitOn NL s" "[]" perChunk ovl 0]
  by (simp add: decomposeByLines_def joinWith_splitOn)


subsection \<open>Chunk offsets: paragraphs\<close>

text \<open>\<^verbatim>\<open>indexOf\<close> finds a piece no later than where it lies, so the forward scan
  of \<^verbatim>\<open>forEach\<close> keeps every later piece ahead of \<^verbatim>\<open>offset\<close>.\<close>

lemma occursInOrder_mono:
  "occursInOrder s off parts \<Longrightarrow> off' \<le> off \<Longrightarrow> occursInOrder s off' parts"
  by (cases parts) (auto intro: order_trans)

lemma findFirst_least:
  "k + length t \<le> length xs \<Longrightarrow> take (length t) (drop k xs) = t
   \<Longrightarrow> \<exists>k0\<le>k. findFirst t xs = Some k0"
proof (induction xs arbitrary: k)
  case Nil
  then show ?case by simp
next
  case (Cons c cs)
  show ?case
  proof (cases "startsWith (c # cs) t")
    case True
    then show ?thesis by simp
  next
    case False
    show ?thesis
    proof (cases k)
      case 0
      with Cons.prems(2) False show ?thesis by (simp add: startsWith_def)
    next
      case (Suc j)
      with Cons.prems have "j + length t \<le> length cs" "take (length t) (drop j cs) = t" by auto
      from Cons.IH [OF this] obtain k0 where "k0 \<le> j" "findFirst t cs = Some k0" by blast
      with False Suc show ?thesis by auto
    qed
  qed
qed

lemma indexOf_least:
  assumes "0 \<le> offset" and "nat offset \<le> k" and "k + length t \<le> length s"
    and "take (length t) (drop k s) = t"
  shows "offset \<le> indexOf s t offset \<and> indexOf s t offset \<le> int k"
proof -
  have mx: "max offset 0 = offset" using assms(1) by simp
  have pm: "min (nat offset) (length s) = nat offset" using assms(2,3) by simp
  have "(k - nat offset) + length t \<le> length (drop (nat offset) s)"
    using assms(2,3) by simp
  moreover have "take (length t) (drop (k - nat offset) (drop (nat offset) s)) = t"
    using assms(2,4) by simp
  ultimately obtain k0 where "k0 \<le> k - nat offset" "findFirst t (drop (nat offset) s) = Some k0"
    using findFirst_least by blast
  then show ?thesis
    using assms(1,2) by (simp add: indexOf_def Let_def mx pm)
qed

lemma forEachPart_within:
  "0 \<le> offset \<Longrightarrow> occursInOrder s (nat offset) parts \<Longrightarrow> list_all (withinText s) acc
   \<Longrightarrow> list_all (withinText s) (forEachPart s parts idx offset acc)"
proof (induction parts arbitrary: idx offset acc)
  case Nil
  then show ?case by simp
next
  case (Cons part parts)
  from Cons.prems(2) obtain k where k: "nat offset \<le> k" "k + length part \<le> length s"
      "take (length part) (drop k s) = part" "occursInOrder s (k + length part) parts"
    by auto
  show ?case
  proof (cases "trim part = []")
    case True
    have "occursInOrder s (nat offset) parts"
      using k(1,4) by (auto intro: occursInOrder_mono)
    from Cons.IH [OF Cons.prems(1) this Cons.prems(3)] True show ?thesis by simp
  next
    case False
    define start where "start = indexOf s part offset"
    from indexOf_least [OF Cons.prems(1) k(1,2,3)]
    have st: "offset \<le> start" "start \<le> int k" by (simp_all add: start_def)
    let ?c = "\<lparr>index = idx, content = trim part, startOffset = start,
               endOffset = start + int (length part), metadata = None\<rparr>"
    have "withinText s ?c"
      using st Cons.prems(1) k(2) by (simp add: withinText_def)
    with Cons.prems(3) have w: "list_all (withinText s) (acc @ [?c])" by simp
    have nn: "0 \<le> start + int (length part)" using st Cons.prems(1) by simp
    have "nat (start + int (length part)) \<le> k + length part" using st by linarith
    with k(4) have "occursInOrder s (nat (start + int (length part))) parts"
      by (rule occursInOrder_mono)
    from Cons.IH [OF nn this w] False show ?thesis
      by (simp add: Let_def start_def)
  qed
qed

lemma take_length_le: "take (length l) xs = l \<Longrightarrow> length l \<le> length xs"
proof -
  assume a: "take (length l) xs = l"
  have "length (take (length l) xs) = length l" by (simp only: a)
  then show ?thesis by (simp add: min_def split: if_splits)
qed

lemma splitParagraphs_pieces:
  "\<exists>l ls. splitParagraphs s = l # ls \<and> take (length l) s = l
     \<and> (\<forall>pre. occursInOrder (pre @ s) (length pre + length l) ls)"
proof (induction s rule: splitParagraphs.induct)
  case 1
  show ?case by simp
next
  case (2 c cs)
  show ?case
  proof (cases "c = NL \<and> cs \<noteq> [] \<and> hd cs = NL")
    case True
    let ?rest = "dropWhile (\<lambda>d. d = NL) cs"
    from 2(1) [OF True] obtain l ls where r: "splitParagraphs ?rest = l # ls"
        "take (length l) ?rest = l"
        "\<forall>pre. occursInOrder (pre @ ?rest) (length pre + length l) ls"
      by blast
    have sp: "splitParagraphs (c # cs) = [] # l # ls"
      using True r(1) by (subst splitParagraphs.simps) simp
    have "occursInOrder (pre @ c # cs) (length pre) (l # ls)" for pre
    proof -
      define pre' where "pre' = pre @ c # takeWhile (\<lambda>d. d = NL) cs"
      define rest where "rest = dropWhile (\<lambda>d. d = NL) cs"
      have tx: "pre @ c # cs = pre' @ rest" by (simp add: pre'_def rest_def)
      have ll: "length l \<le> length rest"
        using r(2) unfolding rest_def by (rule take_length_le)
      have "occursInOrder (pre' @ rest) (length pre' + length l) ls"
        using r(3) unfolding rest_def by blast
      moreover have "take (length l) (drop (length pre') (pre' @ rest)) = l"
        using r(2) by (simp add: rest_def)
      moreover have "length pre' + length l \<le> length (pre' @ rest)"
        using ll by simp
      moreover have "length pre \<le> length pre'" by (simp add: pre'_def)
      ultimately show ?thesis
        unfolding tx occursInOrder.simps by blast
    qed
    then show ?thesis using sp by simp
  next
    case False
    from 2(2) [OF False] obtain l ls where r: "splitParagraphs cs = l # ls"
        "take (length l) cs = l"
        "\<forall>pre. occursInOrder (pre @ cs) (length pre + length l) ls"
      by blast
    have sp: "splitParagraphs (c # cs) = (c # l) # ls"
      using False r(1) by (subst splitParagraphs.simps) simp
    have "occursInOrder (pre @ c # cs) (length pre + length (c # l)) ls" for pre
      using r(3) [rule_format, of "pre @ [c]"] by simp
    then show ?thesis using sp r(2) by simp
  qed
qed

lemma splitParagraphs_in_order: "occursInOrder s 0 (splitParagraphs s)"
proof -
  from splitParagraphs_pieces [of s] obtain l ls where r: "splitParagraphs s = l # ls"
      "take (length l) s = l" "\<forall>pre. occursInOrder (pre @ s) (length pre + length l) ls"
    by blast
  have "length l \<le> length s" using r(2) by (rule take_length_le)
  moreover have "occursInOrder s (length l) ls" using r(3) [rule_format, of "[]"] by simp
  ultimately show ?thesis using r(1,2) by (auto intro: exI [of _ 0])
qed

lemma decomposeByParagraphs_within:
  "list_all (withinText s) (decomposeByParagraphs s)"
  unfolding decomposeByParagraphs_def
  by (rule forEachPart_within) (simp_all add: splitParagraphs_in_order)



subsection \<open>Chunk offsets: sections and sentences\<close>

text \<open>The matches of the section pattern start at strictly increasing offsets
  inside the text, so every section ends where the next starts or at the end of
  the text.\<close>

lemma sectionMatches_starts:
  "sorted_wrt (<) (map fst (sectionMatches s k))
   \<and> (\<forall>m\<in>set (sectionMatches s k). k \<le> fst m \<and> fst m < length s)"
proof (induction s k rule: sectionMatches.induct)
  case (1 s k)
  show ?case
  proof (cases "length s \<le> k")
    case True
    then show ?thesis by (subst (1 2) sectionMatches.simps) simp
  next
    case False
    show ?thesis
    proof (cases "sectionMatchAt s k")
      case None
      from 1(1) [OF False None] False None show ?thesis
        by (subst (1 2) sectionMatches.simps) auto
    next
      case (Some r)
      obtain lvl title e where r: "r = (lvl, title, e)" by (cases r) auto
      have lt: "k < e" using Some r by (auto dest: sectionMatchAt_end)
      have eq: "sectionMatches s k = (k, lvl, title) # sectionMatches s e"
        using False Some r by (subst sectionMatches.simps) simp
      from 1(2) [OF False Some r [symmetric] refl]
      have ih: "sorted_wrt (<) (map fst (sectionMatches s e))"
        "\<forall>m\<in>set (sectionMatches s e). e \<le> fst m \<and> fst m < length s"
        by auto
      show ?thesis
        unfolding eq using ih lt False by auto
    qed
  qed
qed

lemma sectionChunks_within:
  "sorted_wrt (<) (map fst ms) \<Longrightarrow> \<forall>m\<in>set ms. fst m < length s
   \<Longrightarrow> list_all (withinText s) (sectionChunks s ms idx)"
proof (induction s ms idx rule: sectionChunks.induct)
  case (1 s idx)
  show ?case by simp
next
  case (2 s start lvl title ms idx)
  define e where "e = (case ms of [] \<Rightarrow> int (length s) | (nxt, _) # _ \<Rightarrow> int nxt)"
  have r: "list_all (withinText s) (sectionChunks s ms (idx + 1))"
    using 2 by simp
  have "int start \<le> e"
    unfolding e_def using 2(2,3) by (cases ms) auto
  moreover have "e \<le> int (length s)"
    unfolding e_def using 2(3) by (cases ms) auto
  ultimately have "withinText s \<lparr>index = idx, content = trim (slice s (int start) e),
      startOffset = int start, endOffset = e, metadata = Some (Section lvl title)\<rparr>"
    by (simp add: withinText_def)
  with r show ?case
    by (simp add: Let_def e_def)
qed

lemma decomposeBySections_within:
  "list_all (withinText s) (decomposeBySections s)"
proof (cases "sectionMatches s 0")
  case Nil
  then show ?thesis by (simp add: decomposeBySections_def withinText_def)
next
  case (Cons m ms)
  obtain start0 lvl0 title0 where m: "m = (start0, lvl0, title0)" by (cases m) auto
  from sectionMatches_starts [of s 0] Cons m
  have st: "sorted_wrt (<) (map fst ((start0, lvl0, title0) # ms))"
    "\<forall>x\<in>set ((start0, lvl0, title0) # ms). fst x < length s"
    by auto
  have "list_all (withinText s) (sectionChunks s ((start0, lvl0, title0) # ms) i)" for i
    using st by (rule sectionChunks_within)
  moreover have "withinText s \<lparr>index = 0, content = trim (slice s 0 (int start0)),
      startOffset = 0, endOffset = int start0, metadata = Some Preamble\<rparr>"
    using st(2) by (simp add: withinText_def)
  ultimately show ?thesis
    using Cons m by (simp add: decomposeBySections_def Let_def del: sectionChunks.simps)
qed

text \<open>A match of the sentence pattern ends inside the text.\<close>

lemma sentenceMatchAt_le:
  assumes "sentenceMatchAt s p = Some e" and "p \<le> length s"
  shows "e \<le> length s"
proof -
  define a where "a = length (takeWhile (\<lambda>c. \<not> isTerminator c) (drop p s))"
  define b where "b = length (takeWhile isTerminator (drop (p + a) s))"
  define c where "c = length (takeWhile isWhiteSpace (drop (p + a + b) s))"
  have "a \<le> length s - p" unfolding a_def
    using length_takeWhile_le [of "\<lambda>c. \<not> isTerminator c" "drop p s"] by simp
  moreover have "b \<le> length s - (p + a)" unfolding b_def
    using length_takeWhile_le [of isTerminator "drop (p + a) s"] by simp
  moreover have "c \<le> length s - (p + a + b)" unfolding c_def
    using length_takeWhile_le [of isWhiteSpace "drop (p + a + b) s"] by simp
  moreover have "e = p + a + b + c"
    using assms(1) by (simp add: sentenceMatchAt_def Let_def a_def b_def c_def split: if_splits)
  ultimately show ?thesis using assms(2) by linarith
qed

lemma sentenceMatches_spans:
  "\<forall>m\<in>set (sentenceMatches s k). fst m \<le> snd m \<and> snd m \<le> length s"
proof (induction s k rule: sentenceMatches.induct)
  case (1 s k)
  show ?case
  proof (cases "length s \<le> k")
    case True
    then show ?thesis by (subst sentenceMatches.simps) simp
  next
    case False
    show ?thesis
    proof (cases "sentenceMatchAt s k")
      case None
      from 1(1) [OF False None] False None show ?thesis
        by (subst sentenceMatches.simps) simp
    next
      case (Some e)
      have "k < e" using Some by (rule sentenceMatchAt_end)
      moreover have "e \<le> length s" using sentenceMatchAt_le [of s k e] Some False by simp
      ultimately show ?thesis
        using 1(2) [OF False Some] False Some by (subst sentenceMatches.simps) simp
    qed
  qed
qed

lemma sentenceChunks_within:
  "\<forall>m\<in>set ms. fst m \<le> snd m \<and> snd m \<le> length s
   \<Longrightarrow> list_all (withinText s) (sentenceChunks s ms idx)"
proof (induction s ms idx rule: sentenceChunks.induct)
  case (1 s idx)
  show ?case by simp
next
  case (2 s start e ms idx)
  have "withinText s \<lparr>index = idx, content = trim (slice s (int start) (int e)),
      startOffset = int start, endOffset = int e, metadata = None\<rparr>"
    using 2(2) by (simp add: withinText_def)
  with 2 show ?case by simp
qed

lemma decomposeBySentences_within:
  "list_all (withinText s) (decomposeBySentences s)"
proof -
  have "withinText s \<lparr>index = 0, content = trim s, startOffset = 0,
      endOffset = int (length s), metadata = None\<rparr>"
    by (simp add: withinText_def)
  then show ?thesis
    using sentenceChunks_within [OF sentenceMatches_spans, of s 0 0]
    by (simp add: decomposeBySentences_def Let_def)
qed

subsection \<open>Chunk offsets: every strategy\<close>

lemma decomposeByRegex_default_within:
  "decomposeByRegex eng s paragraphPattern = Inr cs \<Longrightarrow> list_all (withinText s) cs"
  using forEachPart_within [of 0 s "splitParagraphs s" "[]" 0]
  by (auto simp: decomposeByRegex_def splitParagraphs_in_order)

text \<open>The callback of \<^verbatim>\<open>forEach\<close> does not check what \<^verbatim>\<open>indexOf\<close> answers.
  When the pieces do not lie one after the other in the text, as the
  captures of nested groups that \<^verbatim>\<open>split\<close> adds to its result (for the
  pattern \<^verbatim>\<open>((a)b)\<close> the text \<open>xaby\<close> is split into \<open>x\<close>, \<open>ab\<close>, \<open>a\<close>,
  \<open>y\<close>), a piece is not found and its chunk starts at \<open>-1\<close>.\<close>

lemma forEachPart_nested_groups:
  "forEachPart ''xaby'' [''x'', ''ab'', ''a'', ''y''] 0 0 []
   = [\<lparr>index = 0, content = ''x'', startOffset = 0, endOffset = 1, metadata = None\<rparr>,
      \<lparr>index = 1, content = ''ab'', startOffset = 1, endOffset = 3, metadata = None\<rparr>,
      \<lparr>index = 2, content = ''a'', startOffset = - 1, endOffset = 0, metadata = None\<rparr>,
      \<lparr>index = 3, content = ''y'', startOffset = 3, endOffset = 4, metadata = None\<rparr>]"
  by code_simp

lemma decomposeByRegex_in_order_within:
  assumes "decomposeByRegex eng s pat = Inr cs"
    and "pat = paragraphPattern \<or>
         (\<forall>regex. newRegExp eng pat ''g'' = Inr regex
            \<longrightarrow> occursInOrder s 0 (map the (regexSplit eng regex s)))"
  shows "list_all (withinText s) cs"
proof (cases "pat = paragraphPattern")
  case True
  with assms(1) show ?thesis by (simp add: decomposeByRegex_default_within)
next
  case False
  with assms(1) obtain regex where r: "newRegExp eng pat ''g'' = Inr regex"
    and cs: "cs = forEachPart s (map the (regexSplit eng regex s)) 0 0 []"
    by (auto simp: decomposeByRegex_def Let_def split: sum.splits if_splits)
  from assms(2) False r have "occursInOrder s 0 (map the (regexSplit eng regex s))" by blast
  then show ?thesis
    unfolding cs by (intro forEachPart_within) simp_all
qed

text \<open>
  \<^bold>\<open>Claim C2.\<close> "For every text, every strategy, and every options value,
  each chunk returned by decompose satisfies 0 <= startOffset <= endOffset <=
  length of the source text."

  \<^verbatim>\<open>decompose\<close> checks none of its options. With a negative chunk size the
  end of the first chunk, \<open>min (offset + chunkSize) length\<close>, is negative; the
  tool \<^verbatim>\<open>rlm_get_chunks\<close>, whose schema puts no bound on \<^verbatim>\<open>chunk_size\<close>, hands
  such a chunk out. As amended: the offsets lie within the text for by-lines,
  by-paragraphs, by-sections and by-sentences, for fixed-size when the chunk
  size is not negative, and for by-regex when no pattern is supplied (the
  default \<^verbatim>\<open>'\n\n+'\<close>) or when the pieces that \<^verbatim>\<open>split\<close> returns for the
  supplied pattern lie in the text one after the other.
\<close>

theorem C2_chunk_offsets_within_text:
  assumes "decompose eng s strategy opts = Inr cs"
    and "strategy = FIXED_SIZE \<longrightarrow> (\<forall>n. chunkSize opts = Some n \<longrightarrow> 0 \<le> n)"
    and "strategy = BY_REGEX \<longrightarrow>
           patternOrDefault (pattern opts) = paragraphPattern \<or>
           (\<forall>regex. newRegExp eng (patternOrDefault (pattern opts)) ''g'' = Inr regex
              \<longrightarrow> occursInOrder s 0 (map the (regexSplit eng regex s)))"
  shows "\<forall>c\<in>set cs. 0 \<le> startOffset c \<and> startOffset c \<le> endOffset c
           \<and> endOffset c \<le> int (length s)"
proof -
  have "list_all (withinText s) cs"
  proof (cases strategy)
    case FIXED_SIZE
    with assms(2) have "0 < orDefault (chunkSize opts) DEFAULT_CHUNK_SIZE"
      by (cases "chunkSize opts") (auto simp: orDefault_def)
    from decomposeBySize_within [OF this] assms(1) FIXED_SIZE show ?thesis
      by (auto simp: decompose_def)
  next
    case BY_LINES
    with assms(1) decomposeByLines_within show ?thesis by (auto simp: decompose_def)
  next
    case BY_PARAGRAPHS
    with assms(1) decomposeByParagraphs_within show ?thesis by (auto simp: decompose_def)
  next
    case BY_SECTIONS
    with assms(1) decomposeBySections_within show ?thesis by (auto simp: decompose_def)
  next
    case BY_REGEX
    with assms(1) have "decomposeByRegex eng s (patternOrDefault (pattern opts)) = Inr cs"
      by (simp add: decompose_def)
    moreover from BY_REGEX assms(3)
    have "patternOrDefault (pattern opts) = paragraphPattern \<or>
           (\<forall>regex. newRegExp eng (patternOrDefault (pattern opts)) ''g'' = Inr regex
              \<longrightarrow> occursInOrder s 0 (map the (regexSplit eng regex s)))"
      by blast
    ultimately show ?thesis by (rule decomposeByRegex_in_order_within)
  next
    case BY_SENTENCES
    with assms(1) decomposeBySentences_within show ?thesis by (auto simp: decompose_def)
  qed
  then show ?thesis by (simp add: list_all_iff withinText_def)
qed

theorem C2_negative_chunk_size_offsets:
  "decompose rejectingEngine ''abcdefgh'' FIXED_SIZE
     \<lparr>chunkSize = Some (- 5), overlap = None, linesPerChunk = None, pattern = None\<rparr>
   = Inr [\<lparr>index = 0, content = ''abc'', startOffset = 0, endOffset = - 5, metadata = None\<rparr>]
   \<and> rlm_get_chunks exampleManager rejectingEngine
       \<lparr>gc_context_id = ''main'', gc_session_id = None, gc_chunk_indices = [0],
        gc_strategy = FIXED_SIZE, gc_chunk_size = - 5, gc_overlap = 200\<rparr>
   = ToolOutput \<lparr>requested = 1, returned = 1,
       chunks = [\<lparr>view_index = 0, view_content = ''a'', start_offset = 0, end_offset = - 5\<rparr>]\<rparr>"
  by code_simp

theorem C2_chunk_offsets_example:
  "(\<exists>cs. decompose rejectingEngine ''hello world'' FIXED_SIZE
          \<lparr>chunkSize = Some 4, overlap = Some 1, linesPerChunk = None, pattern = None\<rparr> = Inr cs
     \<and> length cs = 4 \<and> list_all (withinText ''hello world'') cs) \<and>
   (\<exists>cs. decompose commaEngine ''ab,c'' BY_REGEX
          \<lparr>chunkSize = None, overlap = None, linesPerChunk = None, pattern = Some '',''\<rparr> = Inr cs
     \<and> length cs = 2 \<and> list_all (withinText ''ab,c'') cs)"
proof -
  let ?opts = "\<lparr>chunkSize = Some 4, overlap = Some 1, linesPerChunk = None, pattern = None\<rparr>"
  have d: "decompose rejectingEngine ''hello world'' FIXED_SIZE ?opts
     = Inr [\<lparr>index = 0, content = ''hell'', startOffset = 0, endOffset = 4, metadata = None\<rparr>,
            \<lparr>index = 1, content = ''lo w'', startOffset = 3, endOffset = 7, metadata = None\<rparr>,
            \<lparr>index = 2, content = ''worl'', startOffset = 6, endOffset = 10, metadata = None\<rparr>,
            \<lparr>index = 3, content = ''ld'', startOffset = 9, endOffset = 11, metadata = None\<rparr>]"
    by code_simp
  have h2: "FIXED_SIZE = FIXED_SIZE \<longrightarrow> (\<forall>n. chunkSize ?opts = Some n \<longrightarrow> 0 \<le> n)" by simp
  have h3: "FIXED_SIZE = BY_REGEX \<longrightarrow>
      patternOrDefault (pattern ?opts) = paragraphPattern \<or>
      (\<forall>regex. newRegExp rejectingEngine (patternOrDefault (pattern ?opts)) ''g'' = Inr regex
         \<longrightarrow> occursInOrder ''hello world'' 0 (map the (regexSplit rejectingEngine regex ''hello world'')))"
    by simp
  let ?ropts = "\<lparr>chunkSize = None, overlap = None, linesPerChunk = None, pattern = Some '',''\<rparr>"
  have rd: "decompose commaEngine ''ab,c'' BY_REGEX ?ropts
     = Inr [\<lparr>index = 0, content = ''ab'', startOffset = 0, endOffset = 2, metadata = None\<rparr>,
            \<lparr>index = 1, content = ''c'', startOffset = 3, endOffset = 4, metadata = None\<rparr>]"
    by code_simp
  have r2: "BY_REGEX = FIXED_SIZE \<longrightarrow> (\<forall>n. chunkSize ?ropts = Some n \<longrightarrow> 0 \<le> n)" by simp
  have sp: "map the (regexSplit commaEngine () ''ab,c'') = [''ab'', ''c'']"
    by (simp add: commaEngine_def)
  have "occursInOrder ''ab,c'' 0 [''ab'', ''c'']"
    unfolding occursInOrder.simps
    by (rule exI [of _ 0], simp, rule exI [of _ 3], simp)
  then have r3: "BY_REGEX = BY_REGEX \<longrightarrow>
      patternOrDefault (pattern ?ropts) = paragraphPattern \<or>
      (\<forall>regex. newRegExp commaEngine (patternOrDefault (pattern ?ropts)) ''g'' = Inr regex
         \<longrightarrow> occursInOrder ''ab,c'' 0 (map the (regexSplit commaEngine regex ''ab,c'')))"
    using sp by simp
  from C2_chunk_offsets_within_text [OF d h2 h3] d C2_chunk_offsets_within_text [OF rd r2 r3] rd show ?thesis
    by (simp add: withinText_def)
qed

end
